theory Spec2Isabelle
  imports
    Complex_Main
    "HOL-Library.Multiset"
    "HOL-Library.Monad_Syntax"
    "HOL-Library.Product_Lexorder"
begin

section \<open>Doubles, as far as the sources compare them\<close>

text \<open>
  The sources below never compute with a \<^verbatim>\<open>double\<close>: they copy it and compare it. A double
  is therefore a NaN, one of the two infinities or a finite number; the two zeros compare
  equal and are one value here. The comparisons are those of C++: every ordered comparison
  with a NaN is false, and \<^verbatim>\<open>!=\<close> with a NaN is true.
\<close>

datatype double = DNaN | DNegInf | DFin real | DPosInf

fun dlt :: "double \<Rightarrow> double \<Rightarrow> bool" where
  "dlt DNaN b = False"
| "dlt a DNaN = False"
| "dlt DNegInf b = (b \<noteq> DNegInf)"
| "dlt a DNegInf = False"
| "dlt DPosInf b = False"
| "dlt (DFin x) (DFin y) = (x < y)"
| "dlt (DFin x) DPosInf = True"

definition dgt :: "double \<Rightarrow> double \<Rightarrow> bool" where
  "dgt a b = dlt b a"

definition dle :: "double \<Rightarrow> double \<Rightarrow> bool" where
  "dle a b = (a \<noteq> DNaN \<and> b \<noteq> DNaN \<and> \<not> dlt b a)"

definition dge :: "double \<Rightarrow> double \<Rightarrow> bool" where
  "dge a b = dle b a"

definition dne :: "double \<Rightarrow> double \<Rightarrow> bool" where
  "dne a b = (a = DNaN \<or> b = DNaN \<or> a \<noteq> b)"

fun dneg :: "double \<Rightarrow> double" where
  "dneg DNaN = DNaN"
| "dneg DNegInf = DPosInf"
| "dneg (DFin x) = DFin (- x)"
| "dneg DPosInf = DNegInf"

text \<open>The place of a double that is not a NaN in the linear order of the extended reals.\<close>

fun drank :: "double \<Rightarrow> int \<times> real" where
  "drank DNaN = (3, 0)"
| "drank DNegInf = (0, 0)"
| "drank (DFin x) = (1, x)"
| "drank DPosInf = (2, 0)"

section \<open>The LP and its solution (lp_data/HighsLp.h)\<close>

text \<open>
  The fields of \<^verbatim>\<open>HighsLp\<close> and \<^verbatim>\<open>HighsSolution\<close> that the feasibility routine reads. The
  source's field names end in an underscore (\<^verbatim>\<open>numCol_\<close>), which a constant's name cannot;
  the underscore is dropped.
\<close>

record HighsLp =
  numCol :: int
  numRow :: int
  colCost :: "double list"
  colLower :: "double list"
  colUpper :: "double list"
  rowLower :: "double list"
  rowUpper :: "double list"
  sense :: int

record HighsSolution =
  col_value :: "double list"
  col_dual :: "double list"
  row_value :: "double list"
  row_dual :: "double list"

text \<open>
  \<^verbatim>\<open>HighsStatus\<close> and \<^verbatim>\<open>MinimizationType\<close> are declared in headers that are not among the
  sources; these are the values FindFeasibility.cpp uses.
\<close>

datatype HighsStatus = OK | Error | NotImplemented

datatype MinimizationType = kComponentWise | kExact

section \<open>FindFeasibility.cpp\<close>

text \<open>\<^verbatim>\<open>isEqualityProblem\<close>: the loop over the rows returns false at the first row whose bounds differ.\<close>

fun isEqualityProblem_rows :: "HighsLp \<Rightarrow> nat list \<Rightarrow> bool" where
  "isEqualityProblem_rows lp [] = True"
| "isEqualityProblem_rows lp (row # rows) =
     (if dne (rowLower lp ! row) (rowUpper lp ! row) then False
      else isEqualityProblem_rows lp rows)"

definition isEqualityProblem :: "HighsLp \<Rightarrow> bool" where
  "isEqualityProblem lp = isEqualityProblem_rows lp [0..<nat (numRow lp)]"

definition chooseStartingMu :: "HighsLp \<Rightarrow> double" where
  "chooseStartingMu lp = DFin 10"

text \<open>
  The column loop of \<^verbatim>\<open>initialize\<close>, on the column values of the solution. The last
  branch is the early \<^verbatim>\<open>return HighsStatus::Error\<close>: the columns set before it stay set in
  the caller's solution.
\<close>

fun initialize_cols :: "HighsLp \<Rightarrow> nat list \<Rightarrow> double list \<Rightarrow> HighsStatus \<times> double list" where
  "initialize_cols lp [] cv = (OK, cv)"
| "initialize_cols lp (col # cols) cv =
     (if dle (colLower lp ! col) (DFin 0) \<and> dge (colUpper lp ! col) (DFin 0)
        then initialize_cols lp cols (cv[col := DFin 0])
      else if dgt (colLower lp ! col) (DFin 0)
        then initialize_cols lp cols (cv[col := colLower lp ! col])
      else if dlt (colUpper lp ! col) (DFin 0)
        then initialize_cols lp cols (cv[col := colUpper lp ! col])
      else (Error, cv))"

text \<open>
  \<^verbatim>\<open>initialize(lp, solution, mu, lambda)\<close>. The three reference parameters are arguments and
  results. \<^verbatim>\<open>isSolutionConsistent\<close> is declared in HighsLp.h and defined in a file that is not
  among the sources: its answer is the argument \<open>consistent\<close>. On the error return \<open>mu\<close> and
  \<open>lambda\<close> are as they were.
\<close>

definition initialize ::
  "bool \<Rightarrow> HighsLp \<Rightarrow> HighsSolution \<Rightarrow> double \<Rightarrow> double list
     \<Rightarrow> HighsStatus \<times> HighsSolution \<times> double \<times> double list" where
  "initialize consistent lp solution mu lambda =
     (let solution1 =
            (if \<not> consistent
             then solution\<lparr>col_value := replicate (nat (numCol lp)) (DFin 0),
                            col_dual := [], row_value := [], row_dual := []\<rparr>
             else solution);
          (status, cv) = initialize_cols lp [0..<nat (numCol lp)] (col_value solution1);
          solution2 = solution1\<lparr>col_value := cv\<rparr>
      in if status \<noteq> OK then (status, solution2, mu, lambda)
         else (OK, solution2, chooseStartingMu lp, replicate (nat (numRow lp)) (DFin 0)))"

definition kExitTolerance :: double where
  "kExitTolerance = DFin (1 / 100000000)"

text \<open>
  The loop \<^verbatim>\<open>for (iteration = 1; iteration < K + 1; iteration++)\<close> of \<^verbatim>\<open>runFeasibility\<close>.
  Its arithmetic (the minimisation of the quadratic, the updates of \<^verbatim>\<open>mu\<close> and \<^verbatim>\<open>lambda\<close>)
  is floating point and enters only through the residual norm that
  \<^verbatim>\<open>quadratic.getResidualNorm2()\<close> reports: \<open>residual k\<close> is that norm after \<open>k\<close> calls of
  \<^verbatim>\<open>minimize_by_component\<close>. The first argument counts the iterations left, the last the
  calls of \<^verbatim>\<open>minimize_by_component\<close> made so far; the result is the status returned and the
  number of those calls.
\<close>

fun runFeasibility_loop ::
  "nat \<Rightarrow> (nat \<Rightarrow> double) \<Rightarrow> MinimizationType \<Rightarrow> nat \<Rightarrow> HighsStatus \<times> nat" where
  "runFeasibility_loop 0 residual type calls = (OK, calls)"
| "runFeasibility_loop (Suc left) residual type calls =
     (if type = kComponentWise then
        (if dlt (residual (Suc calls)) kExitTolerance then (OK, Suc calls)
         else runFeasibility_loop left residual type (Suc calls))
      else if type = kExact then (NotImplemented, calls)
      else
        (if dlt (residual calls) kExitTolerance then (OK, calls)
         else runFeasibility_loop left residual type calls))"

text \<open>
  \<^verbatim>\<open>runFeasibility(lp, solution, type)\<close>: the status returned, the solution left to the caller
  and the number of calls of \<^verbatim>\<open>minimize_by_component\<close>. \<^verbatim>\<open>mu\<close> and \<^verbatim>\<open>lambda\<close> are locals,
  \<^verbatim>\<open>mu\<close> not initialised before \<^verbatim>\<open>initialize\<close> sets it; the status of \<^verbatim>\<open>initialize\<close> is
  dropped, as the source drops it. The solution that \<^verbatim>\<open>quadratic.getSolution\<close> writes at the
  end is floating point; \<open>final\<close> stands for it.
\<close>

definition runFeasibility ::
  "bool \<Rightarrow> (nat \<Rightarrow> double) \<Rightarrow> HighsSolution \<Rightarrow> HighsLp \<Rightarrow> HighsSolution \<Rightarrow> MinimizationType
     \<Rightarrow> HighsStatus \<times> HighsSolution \<times> nat" where
  "runFeasibility consistent residual final lp solution type =
     (if \<not> isEqualityProblem lp then (NotImplemented, solution, 0)
      else
        (let (status, solution1, mu, lambda) = initialize consistent lp solution DNaN [];
             rest =
               (if dlt (residual 0) kExitTolerance then (OK, solution1, 0)
                else (let (st, calls) = runFeasibility_loop 30 residual type 0
                      in if st = OK then (OK, final, calls) else (st, solution1, calls)))
         in if type = kComponentWise then rest
            else if type = kExact then (NotImplemented, solution1, 0)
            else rest))"

text \<open>The starting value that the column loop gives a column with bounds \<open>l\<close> and \<open>u\<close>.\<close>

definition starting_value :: "double \<Rightarrow> double \<Rightarrow> double" where
  "starting_value l u =
     (if dle l (DFin 0) \<and> dge u (DFin 0) then DFin 0 else if dgt l (DFin 0) then l else u)"

section \<open>util/HighsSort.cpp: \<^verbatim>\<open>increasing_set_ok\<close>\<close>

text \<open>
  The loop \<^verbatim>\<open>for (int k = 0; k < set_num_entries; k++)\<close> of the \<^verbatim>\<open>int\<close> overload, over the
  entries it reads, with \<^verbatim>\<open>check_bounds\<close>, \<^verbatim>\<open>set_entry_upper\<close> and the running
  \<^verbatim>\<open>previous_entry\<close>.
\<close>

fun increasing_set_ok_loop :: "bool \<Rightarrow> int \<Rightarrow> int list \<Rightarrow> int \<Rightarrow> bool" where
  "increasing_set_ok_loop check_bounds set_entry_upper [] previous_entry = True"
| "increasing_set_ok_loop check_bounds set_entry_upper (entry # entries) previous_entry =
     (if entry < previous_entry then False
      else if check_bounds \<and> entry > set_entry_upper then False
      else increasing_set_ok_loop check_bounds set_entry_upper entries entry)"

text \<open>
  \<^verbatim>\<open>increasing_set_ok(set, set_num_entries, set_entry_lower, set_entry_upper)\<close> on \<^verbatim>\<open>int\<close>.
  The pointer is \<open>None\<close> when it is \<^verbatim>\<open>NULL\<close>, else the array it points to; the loop reads its
  first \<^verbatim>\<open>set_num_entries\<close> entries, which the array has to hold. The constant
  \<^verbatim>\<open>HIGHS_CONST_I_INF\<close> is declared in lp_data/HConst.h, which is not among the sources: it is
  the first argument.
\<close>

definition increasing_set_ok :: "int \<Rightarrow> int list option \<Rightarrow> int \<Rightarrow> int \<Rightarrow> int \<Rightarrow> bool" where
  "increasing_set_ok HIGHS_CONST_I_INF entries set_num_entries set_entry_lower set_entry_upper =
     (if set_num_entries < 0 then False
      else case entries of
        None \<Rightarrow> False
      | Some xs \<Rightarrow>
          (let check_bounds = set_entry_lower \<le> set_entry_upper;
               previous_entry = (if check_bounds then set_entry_lower else - HIGHS_CONST_I_INF)
           in increasing_set_ok_loop check_bounds set_entry_upper
                (take (nat set_num_entries) xs) previous_entry))"

text \<open>The \<^verbatim>\<open>double\<close> overload, with the comparisons of doubles; \<^verbatim>\<open>HIGHS_CONST_INF\<close> is its first argument.\<close>

fun increasing_set_ok_double_loop :: "bool \<Rightarrow> double \<Rightarrow> double list \<Rightarrow> double \<Rightarrow> bool" where
  "increasing_set_ok_double_loop check_bounds set_entry_upper [] previous_entry = True"
| "increasing_set_ok_double_loop check_bounds set_entry_upper (entry # entries) previous_entry =
     (if dlt entry previous_entry then False
      else if check_bounds \<and> dgt entry set_entry_upper then False
      else increasing_set_ok_double_loop check_bounds set_entry_upper entries entry)"

definition increasing_set_ok_double ::
  "double \<Rightarrow> double list option \<Rightarrow> int \<Rightarrow> double \<Rightarrow> double \<Rightarrow> bool" where
  "increasing_set_ok_double HIGHS_CONST_INF entries set_num_entries set_entry_lower set_entry_upper =
     (if set_num_entries < 0 then False
      else case entries of
        None \<Rightarrow> False
      | Some xs \<Rightarrow>
          (let check_bounds = dle set_entry_lower set_entry_upper;
               previous_entry = (if check_bounds then set_entry_lower else dneg HIGHS_CONST_INF)
           in increasing_set_ok_double_loop check_bounds set_entry_upper
                (take (nat set_num_entries) xs) previous_entry))"

section \<open>util/HighsSort.cpp: the heap sort\<close>

text \<open>
  The sort works on \<^verbatim>\<open>heap_v[1..n]\<close> of an array that the caller owns. An array is a partial
  map from positions to values: a position that holds no value is outside the array, a read
  of it (\<open>heap_v k\<close>, in the option monad) or a write to it (\<open>store\<close>) is an error, and the
  error is the result \<open>None\<close> of the function that made it.

  The positions \<^verbatim>\<open>i\<close>, \<^verbatim>\<open>j\<close> and \<^verbatim>\<open>n\<close> are of type \<^verbatim>\<open>int\<close>, of 32 bits. They are integers
  here, and \<open>in_int\<close> is put where the source computes \<^verbatim>\<open>2 * i\<close>, \<^verbatim>\<open>2 * j\<close> and \<^verbatim>\<open>j + 1\<close>: a
  result that is not an \<^verbatim>\<open>int\<close> is a signed overflow, which is undefined, and is the error
  \<open>None\<close> as well. \<^verbatim>\<open>i - 1\<close> is computed where \<^verbatim>\<open>i \<ge> 1\<close> only and cannot overflow, and neither
  can a division by two, \<open>div2\<close>, which rounds towards zero.
\<close>

type_synonym 'a array = "int \<Rightarrow> 'a option"

definition store :: "'a array \<Rightarrow> int \<Rightarrow> 'a \<Rightarrow> 'a array option" where
  "store a k x = (case a k of None \<Rightarrow> None | Some y \<Rightarrow> Some (a(k \<mapsto> x)))"

definition INT_MAX :: int where
  "INT_MAX = 2147483647"

definition INT_MIN :: int where
  "INT_MIN = - 2147483648"

definition in_int :: "int \<Rightarrow> int option" where
  "in_int x = (if INT_MIN \<le> x \<and> x \<le> INT_MAX then Some x else None)"

definition div2 :: "int \<Rightarrow> int" where
  "div2 j = (if 0 \<le> j then j div 2 else - ((- j) div 2))"

subsection \<open>\<^verbatim>\<open>maxheapsort(int* heap_v, int n)\<close>\<close>

text \<open>
  The loop \<^verbatim>\<open>while (j <= n)\<close> of \<^verbatim>\<open>max_heapify(int* heap_v, int i, int n)\<close>, as a function of
  \<^verbatim>\<open>temp_v\<close>, \<^verbatim>\<open>n\<close>, \<^verbatim>\<open>j\<close> and the array; its result is \<^verbatim>\<open>j\<close> and the array at the exit. The
  source tests \<^verbatim>\<open>temp_v > heap_v[j]\<close> and then \<^verbatim>\<open>temp_v <= heap_v[j]\<close>; where both fail the
  body changes nothing and the loop goes round again, which is the last branch. A loop that
  does not end has the result \<open>None\<close>.
\<close>

partial_function (option) max_heapify_loop ::
  "int \<Rightarrow> int \<Rightarrow> int \<Rightarrow> int array \<Rightarrow> (int \<times> int array) option" where
  "max_heapify_loop temp_v n j heap_v =
     (if j \<le> n then
        do {
          j \<leftarrow> (if j < n then
                 do {
                   j1 \<leftarrow> in_int (j + 1);
                   a \<leftarrow> heap_v j1;
                   b \<leftarrow> heap_v j;
                   Some (if a > b then j1 else j)
                 }
               else Some j);
          c \<leftarrow> heap_v j;
          if temp_v > c then Some (j, heap_v)
          else if temp_v \<le> c then
            do {
              heap_v \<leftarrow> store heap_v (div2 j) c;
              j \<leftarrow> in_int (2 * j);
              max_heapify_loop temp_v n j heap_v
            }
          else max_heapify_loop temp_v n j heap_v
        }
      else Some (j, heap_v))"

definition max_heapify :: "int array \<Rightarrow> int \<Rightarrow> int \<Rightarrow> int array option" where
  "max_heapify heap_v i n =
     do {
       temp_v \<leftarrow> heap_v i;
       j \<leftarrow> in_int (2 * i);
       (j, heap_v) \<leftarrow> max_heapify_loop temp_v n j heap_v;
       store heap_v (div2 j) temp_v
     }"

text \<open>
  \<^verbatim>\<open>build_maxheap\<close>: the loop \<^verbatim>\<open>for (i = n / 2; i >= 1; i--)\<close>, from \<^verbatim>\<open>i\<close> on.
\<close>

function build_maxheap_from :: "int \<Rightarrow> int \<Rightarrow> int array \<Rightarrow> int array option" where
  "build_maxheap_from i n heap_v =
     (if i \<ge> 1 then
        do { heap_v \<leftarrow> max_heapify heap_v i n; build_maxheap_from (i - 1) n heap_v }
      else Some heap_v)"
  by pat_completeness auto
termination
  by (relation "measure (\<lambda>(i, n, heap_v). nat i)") auto

definition build_maxheap :: "int array \<Rightarrow> int \<Rightarrow> int array option" where
  "build_maxheap heap_v n = build_maxheap_from (div2 n) n heap_v"

text \<open>
  \<^verbatim>\<open>max_heapsort\<close>: the loop \<^verbatim>\<open>for (i = n; i >= 2; i--)\<close>, from \<^verbatim>\<open>i\<close> on; it swaps
  \<^verbatim>\<open>heap_v[i]\<close> and \<^verbatim>\<open>heap_v[1]\<close> and restores the heap on \<^verbatim>\<open>heap_v[1..i-1]\<close>.
\<close>

function max_heapsort_from :: "int \<Rightarrow> int array \<Rightarrow> int array option" where
  "max_heapsort_from i heap_v =
     (if i \<ge> 2 then
        do {
          temp_v \<leftarrow> heap_v i;
          v1 \<leftarrow> heap_v 1;
          heap_v \<leftarrow> store heap_v i v1;
          heap_v \<leftarrow> store heap_v 1 temp_v;
          heap_v \<leftarrow> max_heapify heap_v 1 (i - 1);
          max_heapsort_from (i - 1) heap_v
        }
      else Some heap_v)"
  by pat_completeness auto
termination
  by (relation "measure (\<lambda>(i, heap_v). nat i)") auto

definition max_heapsort :: "int array \<Rightarrow> int \<Rightarrow> int array option" where
  "max_heapsort heap_v n = max_heapsort_from n heap_v"

definition maxheapsort :: "int array \<Rightarrow> int \<Rightarrow> int array option" where
  "maxheapsort heap_v n = do { heap_v \<leftarrow> build_maxheap heap_v n; max_heapsort heap_v n }"

subsection \<open>\<^verbatim>\<open>maxheapsort(double* heap_v, int* heap_i, int n)\<close>\<close>

text \<open>
  The value-index overload, named with the suffix \<open>_vi\<close>. The values are doubles and are
  compared as doubles; the indices move with them.
\<close>

partial_function (option) max_heapify_vi_loop ::
  "double \<Rightarrow> int \<Rightarrow> int \<Rightarrow> double array \<Rightarrow> int array \<Rightarrow> (int \<times> double array \<times> int array) option" where
  "max_heapify_vi_loop temp_v n j heap_v heap_i =
     (if j \<le> n then
        do {
          j \<leftarrow> (if j < n then
                 do {
                   j1 \<leftarrow> in_int (j + 1);
                   a \<leftarrow> heap_v j1;
                   b \<leftarrow> heap_v j;
                   Some (if dgt a b then j1 else j)
                 }
               else Some j);
          c \<leftarrow> heap_v j;
          if dgt temp_v c then Some (j, heap_v, heap_i)
          else if dle temp_v c then
            do {
              heap_v \<leftarrow> store heap_v (div2 j) c;
              ci \<leftarrow> heap_i j;
              heap_i \<leftarrow> store heap_i (div2 j) ci;
              j \<leftarrow> in_int (2 * j);
              max_heapify_vi_loop temp_v n j heap_v heap_i
            }
          else max_heapify_vi_loop temp_v n j heap_v heap_i
        }
      else Some (j, heap_v, heap_i))"

definition max_heapify_vi ::
  "double array \<Rightarrow> int array \<Rightarrow> int \<Rightarrow> int \<Rightarrow> (double array \<times> int array) option" where
  "max_heapify_vi heap_v heap_i i n =
     do {
       temp_v \<leftarrow> heap_v i;
       temp_i \<leftarrow> heap_i i;
       j \<leftarrow> in_int (2 * i);
       (j, heap_v, heap_i) \<leftarrow> max_heapify_vi_loop temp_v n j heap_v heap_i;
       heap_v \<leftarrow> store heap_v (div2 j) temp_v;
       heap_i \<leftarrow> store heap_i (div2 j) temp_i;
       Some (heap_v, heap_i)
     }"

function build_maxheap_vi_from ::
  "int \<Rightarrow> int \<Rightarrow> double array \<Rightarrow> int array \<Rightarrow> (double array \<times> int array) option" where
  "build_maxheap_vi_from i n heap_v heap_i =
     (if i \<ge> 1 then
        do {
          (heap_v, heap_i) \<leftarrow> max_heapify_vi heap_v heap_i i n;
          build_maxheap_vi_from (i - 1) n heap_v heap_i
        }
      else Some (heap_v, heap_i))"
  by pat_completeness auto
termination
  by (relation "measure (\<lambda>(i, n, heap_v, heap_i). nat i)") auto

definition build_maxheap_vi ::
  "double array \<Rightarrow> int array \<Rightarrow> int \<Rightarrow> (double array \<times> int array) option" where
  "build_maxheap_vi heap_v heap_i n = build_maxheap_vi_from (div2 n) n heap_v heap_i"

function max_heapsort_vi_from ::
  "int \<Rightarrow> double array \<Rightarrow> int array \<Rightarrow> (double array \<times> int array) option" where
  "max_heapsort_vi_from i heap_v heap_i =
     (if i \<ge> 2 then
        do {
          temp_v \<leftarrow> heap_v i;
          v1 \<leftarrow> heap_v 1;
          heap_v \<leftarrow> store heap_v i v1;
          heap_v \<leftarrow> store heap_v 1 temp_v;
          temp_i \<leftarrow> heap_i i;
          i1 \<leftarrow> heap_i 1;
          heap_i \<leftarrow> store heap_i i i1;
          heap_i \<leftarrow> store heap_i 1 temp_i;
          (heap_v, heap_i) \<leftarrow> max_heapify_vi heap_v heap_i 1 (i - 1);
          max_heapsort_vi_from (i - 1) heap_v heap_i
        }
      else Some (heap_v, heap_i))"
  by pat_completeness auto
termination
  by (relation "measure (\<lambda>(i, heap_v, heap_i). nat i)") auto

definition max_heapsort_vi ::
  "double array \<Rightarrow> int array \<Rightarrow> int \<Rightarrow> (double array \<times> int array) option" where
  "max_heapsort_vi heap_v heap_i n = max_heapsort_vi_from n heap_v heap_i"

definition maxheapsort_vi ::
  "double array \<Rightarrow> int array \<Rightarrow> int \<Rightarrow> (double array \<times> int array) option" where
  "maxheapsort_vi heap_v heap_i n =
     do { (heap_v, heap_i) \<leftarrow> build_maxheap_vi heap_v heap_i n; max_heapsort_vi heap_v heap_i n }"

declare build_maxheap_from.simps [simp del] max_heapsort_from.simps [simp del]
  build_maxheap_vi_from.simps [simp del] max_heapsort_vi_from.simps [simp del]

section \<open>The heap sort on total arrays\<close>

text \<open>
  What follows is not read from the source: it is the sort once more, on arrays that hold a
  value at every position and with the order given by a key, which the proofs compare with
  the functions of the last section. \<open>psift\<close> is the loop of \<^verbatim>\<open>max_heapify\<close>, \<open>pheapify\<close>
  is \<^verbatim>\<open>max_heapify\<close>, \<open>pbuild\<close> and \<open>psort\<close> are the loops of \<^verbatim>\<open>build_maxheap\<close> and
  \<^verbatim>\<open>max_heapsort\<close>.
\<close>

function psift :: "('c \<Rightarrow> 'k::linorder) \<Rightarrow> 'k \<Rightarrow> nat \<Rightarrow> nat \<Rightarrow> (nat \<Rightarrow> 'c) \<Rightarrow> nat \<times> (nat \<Rightarrow> 'c)" where
  "psift key kt n j f =
     (if 0 < j \<and> j \<le> n then
        (let j1 = (if j < n \<and> key (f (j + 1)) > key (f j) then j + 1 else j)
         in if kt > key (f j1) then (j1, f)
            else psift key kt n (2 * j1) (f(j1 div 2 := f j1)))
      else (j, f))"
  by pat_completeness auto

termination
  by (relation "measure (\<lambda>(key, kt, n, j, f). n + 1 - j)") auto

declare psift.simps [simp del]

definition pheapify :: "('c \<Rightarrow> 'k::linorder) \<Rightarrow> (nat \<Rightarrow> 'c) \<Rightarrow> nat \<Rightarrow> nat \<Rightarrow> nat \<Rightarrow> 'c" where
  "pheapify key f i n = (case psift key (key (f i)) n (2 * i) f of (j, g) \<Rightarrow> g(j div 2 := f i))"

fun pbuild :: "('c \<Rightarrow> 'k::linorder) \<Rightarrow> nat \<Rightarrow> nat \<Rightarrow> (nat \<Rightarrow> 'c) \<Rightarrow> nat \<Rightarrow> 'c" where
  "pbuild key 0 n f = f"
| "pbuild key (Suc i) n f = pbuild key i n (pheapify key f (Suc i) n)"

fun psort :: "('c \<Rightarrow> 'k::linorder) \<Rightarrow> nat \<Rightarrow> (nat \<Rightarrow> 'c) \<Rightarrow> nat \<Rightarrow> 'c" where
  "psort key i f =
     (if 2 \<le> i then psort key (i - 1) (pheapify key (f(i := f 1, 1 := f i)) 1 (i - 1)) else f)"

declare psort.simps [simp del]

definition pheapsort :: "('c \<Rightarrow> 'k::linorder) \<Rightarrow> (nat \<Rightarrow> 'c) \<Rightarrow> nat \<Rightarrow> nat \<Rightarrow> 'c" where
  "pheapsort key f n = psort key n (pbuild key (n div 2) n f)"

text \<open>
  \<open>larger_child\<close> is the child of position \<open>p\<close> that the loop compares \<^verbatim>\<open>temp_v\<close> with.
  \<open>is_heap key f l n\<close>: every position of \<open>l..n\<close> holds a key no smaller than its children
  hold. \<open>hole_inv\<close> is the invariant of the loop, whose position \<open>p\<close> waits for \<^verbatim>\<open>temp_v\<close>;
  \<open>sort_inv\<close> is the invariant of \<^verbatim>\<open>max_heapsort\<close>. \<open>perm_of f g n\<close>: on \<open>1..n\<close> the array
  \<open>g\<close> is the array \<open>f\<close> rearranged.
\<close>

definition larger_child :: "('c \<Rightarrow> 'k::linorder) \<Rightarrow> nat \<Rightarrow> nat \<Rightarrow> (nat \<Rightarrow> 'c) \<Rightarrow> nat" where
  "larger_child key n p f = (if 2 * p < n \<and> key (f (2 * p + 1)) > key (f (2 * p)) then 2 * p + 1 else 2 * p)"

definition is_heap :: "('c \<Rightarrow> 'k::linorder) \<Rightarrow> (nat \<Rightarrow> 'c) \<Rightarrow> nat \<Rightarrow> nat \<Rightarrow> bool" where
  "is_heap key f l n \<longleftrightarrow> (\<forall>k. l \<le> k div 2 \<and> k \<le> n \<longrightarrow> key (f k) \<le> key (f (k div 2)))"

definition hole_inv :: "('c \<Rightarrow> 'k::linorder) \<Rightarrow> 'k \<Rightarrow> (nat \<Rightarrow> 'c) \<Rightarrow> nat \<Rightarrow> nat \<Rightarrow> nat \<Rightarrow> bool" where
  "hole_inv key kt f l n p \<longleftrightarrow>
     (\<forall>k. l \<le> k div 2 \<and> k \<le> n \<and> k div 2 \<noteq> p \<and> k \<noteq> p \<longrightarrow> key (f k) \<le> key (f (k div 2)))
     \<and> (l \<le> p div 2 \<longrightarrow>
          kt \<le> key (f (p div 2))
          \<and> (\<forall>k. k div 2 = p \<and> k \<le> n \<longrightarrow> key (f k) \<le> key (f (p div 2))))"

definition sort_inv :: "('c \<Rightarrow> 'k::linorder) \<Rightarrow> (nat \<Rightarrow> 'c) \<Rightarrow> nat \<Rightarrow> nat \<Rightarrow> bool" where
  "sort_inv key f i n \<longleftrightarrow>
     is_heap key f 1 i
     \<and> (\<forall>a b. i < a \<and> a \<le> b \<and> b \<le> n \<longrightarrow> key (f a) \<le> key (f b))
     \<and> (\<forall>a b. 1 \<le> a \<and> a \<le> i \<and> i < b \<and> b \<le> n \<longrightarrow> key (f a) \<le> key (f b))"

definition perm_of :: "(nat \<Rightarrow> 'c) \<Rightarrow> (nat \<Rightarrow> 'c) \<Rightarrow> nat \<Rightarrow> bool" where
  "perm_of f g n \<longleftrightarrow> (\<exists>p. bij_betw p {1..n} {1..n} \<and> (\<forall>k\<in>{1..n}. g k = f (p k)))"

text \<open>
  \<open>array_of a m f\<close> is the array \<open>a\<close> with the values \<open>f 1, \<dots>, f m\<close> at the positions
  \<open>1..m\<close>. An array of pairs stands for a value array and an index array; \<open>vkey\<close> orders
  the pairs by the place of their value among the doubles.
\<close>

definition array_of :: "'a array \<Rightarrow> nat \<Rightarrow> (nat \<Rightarrow> 'a) \<Rightarrow> 'a array" where
  "array_of a m f = (\<lambda>z. if 1 \<le> z \<and> z \<le> int m then Some (f (nat z)) else a z)"

definition values_of :: "(nat \<Rightarrow> 'a \<times> 'b) \<Rightarrow> nat \<Rightarrow> 'a" where
  "values_of f k = fst (f k)"

definition indices_of :: "(nat \<Rightarrow> 'a \<times> 'b) \<Rightarrow> nat \<Rightarrow> 'b" where
  "indices_of f k = snd (f k)"

definition vkey :: "double \<times> int \<Rightarrow> int \<times> real" where
  "vkey c = drank (fst c)"

subsection \<open>Inputs for the feasibility routine\<close>

definition lp_rows_differ :: HighsLp where
  "lp_rows_differ =
     \<lparr>numCol = 1, numRow = 2, colCost = [DFin 1], colLower = [DFin 0], colUpper = [DPosInf],
      rowLower = [DFin 1, DFin 0], rowUpper = [DFin 1, DFin 2], sense = 1\<rparr>"

definition lp_rows_equal :: HighsLp where
  "lp_rows_equal =
     \<lparr>numCol = 1, numRow = 2, colCost = [DFin 1], colLower = [DFin 0], colUpper = [DPosInf],
      rowLower = [DFin 1, DFin 2], rowUpper = [DFin 1, DFin 2], sense = 1\<rparr>"

definition solution_empty :: HighsSolution where
  "solution_empty = \<lparr>col_value = [], col_dual = [], row_value = [], row_dual = []\<rparr>"

definition lp_three_cols :: HighsLp where
  "lp_three_cols =
     \<lparr>numCol = 3, numRow = 2, colCost = [DFin 1, DFin 1, DFin 1],
      colLower = [DFin (-1), DFin 2, DNegInf], colUpper = [DPosInf, DFin 5, DFin (-3)],
      rowLower = [DFin 1, DFin 2], rowUpper = [DFin 1, DFin 2], sense = 1\<rparr>"

definition lp_crossed :: HighsLp where
  "lp_crossed =
     \<lparr>numCol = 1, numRow = 0, colCost = [DFin 0], colLower = [DFin 1], colUpper = [DFin (-1)],
      rowLower = [], rowUpper = [], sense = 1\<rparr>"

subsection \<open>Arrays for the sort\<close>

text \<open>Position 0 of these arrays holds no value.\<close>

definition heap3 :: "int array" where
  "heap3 = [1 \<mapsto> 3, 2 \<mapsto> 1, 3 \<mapsto> 2]"

definition values3 :: "double array" where
  "values3 = [1 \<mapsto> DFin (5 / 2), 2 \<mapsto> DNegInf, 3 \<mapsto> DFin 1]"

definition indices3 :: "int array" where
  "indices3 = [1 \<mapsto> 10, 2 \<mapsto> 20, 3 \<mapsto> 30]"

definition nan_v :: "double array" where
  "nan_v = [1 \<mapsto> DNaN, 2 \<mapsto> DFin 1]"

definition nan_i :: "int array" where
  "nan_i = [1 \<mapsto> 10, 2 \<mapsto> 20]"

text \<open>An array of \<open>2 ^ 30\<close> zeros, at the positions \<open>1..1073741824\<close>.\<close>

definition zeros :: "int array" where
  "zeros = (\<lambda>k. if 1 \<le> k \<and> k \<le> 1073741824 then Some 0 else None)"

section \<open>Properties of the heap sort\<close>

subsection \<open>Rearrangements\<close>

lemma perm_of_refl: "perm_of f f n"
  unfolding perm_of_def by (rule exI[of _ id]) simp

lemma perm_of_trans: "perm_of f g n \<Longrightarrow> perm_of g h n \<Longrightarrow> perm_of f h n"
proof -
  assume "perm_of f g n" "perm_of g h n"
  then obtain p q where p: "bij_betw p {1..n} {1..n}" "\<forall>k\<in>{1..n}. g k = f (p k)"
    and q: "bij_betw q {1..n} {1..n}" "\<forall>k\<in>{1..n}. h k = g (q k)"
    unfolding perm_of_def by blast
  have "bij_betw (p \<circ> q) {1..n} {1..n}"
    using q(1) p(1) by (rule bij_betw_trans)
  moreover have "\<forall>k\<in>{1..n}. h k = f ((p \<circ> q) k)"
    using p(2) q(2) q(1) by (auto simp: bij_betw_def)
  ultimately show ?thesis
    unfolding perm_of_def by blast
qed

lemma perm_of_swap:
  assumes "a \<in> {1..n}" "b \<in> {1..n}"
  shows "perm_of f (f(a := f b, b := f a)) n"
proof -
  let ?p = "\<lambda>k. if k = a then b else if k = b then a else k"
  have "bij_betw ?p {1..n} {1..n}"
    using assms by (intro bij_betw_byWitness[where f' = ?p]) auto
  moreover have "\<forall>k\<in>{1..n}. (f(a := f b, b := f a)) k = f (?p k)"
    by auto
  ultimately show ?thesis
    unfolding perm_of_def by blast
qed

lemma perm_of_agree:
  "perm_of f g n \<Longrightarrow> \<forall>k\<in>{1..n}. g' k = g k \<Longrightarrow> perm_of f g' n"
  unfolding perm_of_def by auto

lemma perm_of_mset:
  assumes "perm_of f g n"
  shows "mset (map g [1..<Suc n]) = mset (map f [1..<Suc n])"
proof -
  from assms obtain p where p: "bij_betw p {1..n} {1..n}" "\<forall>k\<in>{1..n}. g k = f (p k)"
    unfolding perm_of_def by blast
  have S: "set [1..<Suc n] = {1..n}" by auto
  have "mset (map g [1..<Suc n]) = image_mset g (mset_set {1..n})"
    by (metis S distinct_upt mset_map mset_set_set)
  also have "\<dots> = image_mset (f \<circ> p) (mset_set {1..n})"
    using p(2) by (intro image_mset_cong) auto
  also have "\<dots> = image_mset f (image_mset p (mset_set {1..n}))"
    by (simp add: multiset.map_comp)
  also have "image_mset p (mset_set {1..n}) = mset_set {1..n}"
    using p(1) by (simp add: image_mset_mset_set bij_betw_def)
  also have "image_mset f (mset_set {1..n}) = mset (map f [1..<Suc n])"
    by (metis S distinct_upt mset_map mset_set_set)
  finally show ?thesis .
qed

lemma perm_of_member:
  assumes "perm_of f g n" "k \<in> {1..n}"
  shows "\<exists>k'\<in>{1..n}. g k = f k'"
proof -
  from assms(1) obtain p where p: "bij_betw p {1..n} {1..n}" "\<forall>k\<in>{1..n}. g k = f (p k)"
    unfolding perm_of_def by blast
  from p(1) assms(2) have "p k \<in> {1..n}"
    by (rule bij_betw_apply)
  with p(2) assms(2) show ?thesis by blast
qed

lemma perm_of_extend:
  assumes "perm_of f g m" "m \<le> n" "\<forall>k. m < k \<longrightarrow> g k = f k"
  shows "perm_of f g n"
proof -
  from assms obtain p where p: "bij_betw p {1..m} {1..m}" "\<forall>k\<in>{1..m}. g k = f (p k)"
    unfolding perm_of_def by blast
  let ?q = "\<lambda>k. if k \<le> m then p k else k"
  have "bij_betw ?q ({1..m} \<union> {m<..n}) ({1..m} \<union> {m<..n})"
  proof (rule bij_betw_combine)
    show "bij_betw ?q {1..m} {1..m}"
      using p(1) by (subst bij_betw_cong[where g = p]) auto
    show "bij_betw ?q {m<..n} {m<..n}"
      by (subst bij_betw_cong[where g = id]) auto
    show "{1..m} \<inter> {m<..n} = {}" by auto
  qed
  moreover have "{1..m} \<union> {m<..n} = {1..n}"
    using assms(2) by auto
  ultimately have "bij_betw ?q {1..n} {1..n}" by simp
  moreover have "\<forall>k\<in>{1..n}. g k = f (?q k)"
    using p(2) assms(3) by auto
  ultimately show ?thesis
    unfolding perm_of_def by blast
qed

subsection \<open>The loop of \<^verbatim>\<open>max_heapify\<close> on total arrays\<close>

lemma larger_child_cases: "larger_child key n p f = 2 * p \<or> larger_child key n p f = 2 * p + 1"
  by (simp add: larger_child_def)

lemma larger_child_div2 [simp]: "larger_child key n p f div 2 = p"
  by (simp add: larger_child_def)

lemma larger_child_bounds: "2 * p \<le> n \<Longrightarrow> 2 * p \<le> larger_child key n p f \<and> larger_child key n p f \<le> n"
  by (simp add: larger_child_def)

lemma larger_child_max:
  "k div 2 = p \<Longrightarrow> k \<le> n \<Longrightarrow> key (f k) \<le> key (f (larger_child key n p f))"
proof -
  assume a: "k div 2 = p" "k \<le> n"
  then have "k = 2 * p \<or> k = 2 * p + 1" by presburger
  with a show ?thesis
    by (auto simp: larger_child_def)
qed

lemma psift_unfold:
  "1 \<le> p \<Longrightarrow> psift key kt n (2 * p) f =
     (if 2 * p \<le> n then
        (if kt > key (f (larger_child key n p f)) then (larger_child key n p f, f)
         else psift key kt n (2 * larger_child key n p f) (f(p := f (larger_child key n p f))))
      else (2 * p, f))"
  by (subst psift.simps) (simp add: larger_child_def Let_def)

lemma psift_induct [consumes 1, case_names stop break shift]:
  assumes "1 \<le> p"
    and stop: "\<And>p f. 1 \<le> p \<Longrightarrow> n < 2 * p \<Longrightarrow> P p f (2 * p) f"
    and break: "\<And>p f. 1 \<le> p \<Longrightarrow> 2 * p \<le> n \<Longrightarrow> kt > key (f (larger_child key n p f))
                  \<Longrightarrow> P p f (larger_child key n p f) f"
    and shift: "\<And>p f j g. 1 \<le> p \<Longrightarrow> 2 * p \<le> n \<Longrightarrow> \<not> kt > key (f (larger_child key n p f))
                  \<Longrightarrow> psift key kt n (2 * larger_child key n p f) (f(p := f (larger_child key n p f))) = (j, g)
                  \<Longrightarrow> P (larger_child key n p f) (f(p := f (larger_child key n p f))) j g
                  \<Longrightarrow> P p f j g"
  shows "P p f (fst (psift key kt n (2 * p) f)) (snd (psift key kt n (2 * p) f))"
  using assms(1)
proof (induction "n + 1 - p" arbitrary: p f rule: less_induct)
  case less
  show ?case
  proof (cases "2 * p \<le> n")
    case False
    then show ?thesis
      using less.prems stop[of p f] by (simp add: psift_unfold)
  next
    case True
    let ?c = "larger_child key n p f"
    show ?thesis
    proof (cases "kt > key (f ?c)")
      case True
      then show ?thesis
        using less.prems \<open>2 * p \<le> n\<close> break[of p f] by (simp add: psift_unfold)
    next
      case False
      have c: "2 * p \<le> ?c" "?c \<le> n"
        using larger_child_bounds[OF True] by auto
      then have "n + 1 - ?c < n + 1 - p" "1 \<le> ?c"
        using less.prems by auto
      then have IH: "P ?c (f(p := f ?c)) (fst (psift key kt n (2 * ?c) (f(p := f ?c))))
          (snd (psift key kt n (2 * ?c) (f(p := f ?c))))"
        by (rule less.hyps)
      have "P p f (fst (psift key kt n (2 * ?c) (f(p := f ?c)))) (snd (psift key kt n (2 * ?c) (f(p := f ?c))))"
        by (rule shift[OF less.prems True False _ IH]) simp
      then show ?thesis
        using less.prems True False by (simp add: psift_unfold)
    qed
  qed
qed

lemma psift_range:
  assumes "1 \<le> p"
  shows "p \<le> fst (psift key kt n (2 * p) f) div 2
         \<and> (p \<le> n \<longrightarrow> fst (psift key kt n (2 * p) f) div 2 \<le> n)"
  using assms
proof (induction rule: psift_induct[where key = key and kt = kt and n = n and f = f])
  case (stop p f)
  then show ?case by simp
next
  case (break p f)
  then show ?case by simp
next
  case (shift p f j g)
  then show ?case
    using larger_child_bounds[of p n key f] by auto
qed

lemma psift_frame:
  assumes "1 \<le> p"
  shows "\<forall>k. k < p \<or> n < k \<longrightarrow> snd (psift key kt n (2 * p) f) k = f k"
  using assms
proof (induction rule: psift_induct[where key = key and kt = kt and n = n and f = f])
  case (stop p f)
  then show ?case by simp
next
  case (break p f)
  then show ?case by simp
next
  case (shift p f j g)
  then show ?case
    using larger_child_bounds[of p n key f] by auto
qed

lemma psift_perm:
  assumes "1 \<le> p" and "n \<le> N"
  shows "perm_of F (f(p := t)) N
         \<longrightarrow> perm_of F ((snd (psift key kt n (2 * p) f))(fst (psift key kt n (2 * p) f) div 2 := t)) N"
  using assms(1)
proof (induction rule: psift_induct[where key = key and kt = kt and n = n and f = f])
  case (stop p f)
  then show ?case by simp
next
  case (break p f)
  then show ?case by simp
next
  case (shift p f j g)
  let ?c = "larger_child key n p f"
  have c: "2 * p \<le> ?c" "?c \<le> n"
    using larger_child_bounds[OF shift(2)] by auto
  show ?case
  proof
    assume F: "perm_of F (f(p := t)) N"
    have "p \<in> {1..N}" "?c \<in> {1..N}"
      using shift(1) c assms(2) by auto
    then have "perm_of (f(p := t)) ((f(p := t))(p := (f(p := t)) ?c, ?c := (f(p := t)) p)) N"
      by (rule perm_of_swap)
    moreover have "(f(p := t))(p := (f(p := t)) ?c, ?c := (f(p := t)) p) = (f(p := f ?c))(?c := t)"
      using shift(1) c by (auto simp: fun_eq_iff)
    ultimately have "perm_of F ((f(p := f ?c))(?c := t)) N"
      using F perm_of_trans by metis
    with shift(5) show "perm_of F (g(j div 2 := t)) N"
      by blast
  qed
qed

lemma psift_heap:
  assumes "1 \<le> p"
  shows "hole_inv key (key t) f l n p \<and> l \<le> p
         \<longrightarrow> is_heap key ((snd (psift key (key t) n (2 * p) f))(fst (psift key (key t) n (2 * p) f) div 2 := t)) l n"
  using assms
proof (induction rule: psift_induct[where key = key and kt = "key t" and n = n and f = f])
  case (stop p f)
  show ?case
  proof (intro impI, elim conjE)
    assume inv: "hole_inv key (key t) f l n p" and lp: "l \<le> p"
    show "is_heap key (f(2 * p div 2 := t)) l n"
      unfolding is_heap_def
    proof (intro allI impI, elim conjE)
      fix k assume k: "l \<le> k div 2" "k \<le> n"
      have ne: "k div 2 \<noteq> p" using k stop by presburger
      show "key ((f(2 * p div 2 := t)) k) \<le> key ((f(2 * p div 2 := t)) (k div 2))"
      proof (cases "k = p")
        case True
        with inv k have "key t \<le> key (f (p div 2))"
          by (simp add: hole_inv_def)
        with True ne show ?thesis by simp
      next
        case False
        with inv k ne have "key (f k) \<le> key (f (k div 2))"
          by (simp add: hole_inv_def)
        with False ne show ?thesis by simp
      qed
    qed
  qed
next
  case (break p f)
  let ?c = "larger_child key n p f"
  show ?case
  proof (intro impI, elim conjE)
    assume inv: "hole_inv key (key t) f l n p" and lp: "l \<le> p"
    show "is_heap key (f(?c div 2 := t)) l n"
      unfolding is_heap_def
    proof (intro allI impI, elim conjE)
      fix k assume k: "l \<le> k div 2" "k \<le> n"
      show "key ((f(?c div 2 := t)) k) \<le> key ((f(?c div 2 := t)) (k div 2))"
      proof (cases "k = p")
        case True
        with break(1) have ne: "k div 2 \<noteq> p" by presburger
        from True inv k have "key t \<le> key (f (p div 2))"
          by (simp add: hole_inv_def)
        with True ne show ?thesis by simp
      next
        case False
        show ?thesis
        proof (cases "k div 2 = p")
          case True
          then have "key (f k) \<le> key (f ?c)"
            using k(2) by (rule larger_child_max)
          with break(3) True False show ?thesis by simp
        next
          case ne: False
          with inv k False have "key (f k) \<le> key (f (k div 2))"
            by (simp add: hole_inv_def)
          with False ne show ?thesis by simp
        qed
      qed
    qed
  qed
next
  case (shift p f j g)
  let ?c = "larger_child key n p f"
  let ?f = "f(p := f ?c)"
  have c: "2 * p \<le> ?c" "?c \<le> n" "?c div 2 = p"
    using larger_child_bounds[OF shift(2)] by auto
  have pc: "p < ?c" using c(1) shift(1) by linarith
  show ?case
  proof (intro impI, elim conjE)
    assume inv: "hole_inv key (key t) f l n p" and lp: "l \<le> p"
    have 1: "key (?f k) \<le> key (?f (k div 2))"
      if k: "l \<le> k div 2" "k \<le> n" "k div 2 \<noteq> ?c" "k \<noteq> ?c" for k
    proof (cases "k = p")
      case True
      with shift(1) have ne: "k div 2 \<noteq> p" by presburger
      from True inv k c have "key (f ?c) \<le> key (f (p div 2))"
        by (simp add: hole_inv_def)
      with True ne show ?thesis by simp
    next
      case False
      show ?thesis
      proof (cases "k div 2 = p")
        case True
        then have "key (f k) \<le> key (f ?c)"
          using k(2) by (rule larger_child_max)
        with True False show ?thesis by simp
      next
        case ne: False
        with inv k False have "key (f k) \<le> key (f (k div 2))"
          by (simp add: hole_inv_def)
        with False ne show ?thesis by simp
      qed
    qed
    have 2: "key t \<le> key (?f (?c div 2))"
      using shift(3) by simp
    have 3: "key (?f k) \<le> key (?f (?c div 2))" if k: "k div 2 = ?c" "k \<le> n" for k
    proof -
      from k pc have kp: "k \<noteq> p" "k div 2 \<noteq> p" by auto
      from k lp pc have lk: "l \<le> k div 2" by simp
      from inv have "l \<le> k div 2 \<and> k \<le> n \<and> k div 2 \<noteq> p \<and> k \<noteq> p \<longrightarrow> key (f k) \<le> key (f (k div 2))"
        unfolding hole_inv_def by blast
      with lk k kp have "key (f k) \<le> key (f (k div 2))"
        by blast
      with k kp show ?thesis by simp
    qed
    have "hole_inv key (key t) ?f l n ?c"
      unfolding hole_inv_def using 1 2 3 by blast
    moreover have "l \<le> ?c" using lp pc by simp
    ultimately show "is_heap key (g(j div 2 := t)) l n"
      using shift(5) by blast
  qed
qed

subsection \<open>Building the heap and sorting, on total arrays\<close>

lemma pheapify_alt:
  "pheapify key f i n =
     (snd (psift key (key (f i)) n (2 * i) f))(fst (psift key (key (f i)) n (2 * i) f) div 2 := f i)"
  by (simp add: pheapify_def case_prod_beta)

lemma pheapify_frame:
  assumes "1 \<le> i" "i \<le> n"
  shows "\<forall>k. k < i \<or> n < k \<longrightarrow> pheapify key f i n k = f k"
  using psift_range[OF assms(1), where key = key and kt = "key (f i)" and n = n and f = f]
    psift_frame[OF assms(1), where key = key and kt = "key (f i)" and n = n and f = f] assms(2)
  by (auto simp: pheapify_alt)

lemma pheapify_perm:
  assumes "1 \<le> i" "n \<le> N"
  shows "perm_of f (pheapify key f i n) N"
proof -
  have "perm_of f (f(i := f i)) N"
    by (simp add: perm_of_refl)
  with psift_perm[OF assms, where F = f and f = f and t = "f i" and key = key and kt = "key (f i)"]
  show ?thesis
    by (simp add: pheapify_alt)
qed

lemma pheapify_heap:
  assumes "1 \<le> i" "is_heap key f (i + 1) n"
  shows "is_heap key (pheapify key f i n) i n"
proof -
  have "\<not> i \<le> i div 2" using assms(1) by presburger
  moreover have "key (f k) \<le> key (f (k div 2))" if "i \<le> k div 2" "k \<le> n" "k div 2 \<noteq> i" for k
    using assms(2) that unfolding is_heap_def by (metis Suc_eq_plus1 Suc_leI le_neq_implies_less)
  ultimately have "hole_inv key (key (f i)) f i n i"
    unfolding hole_inv_def by blast
  with psift_heap[OF assms(1), where key = key and t = "f i" and f = f and l = i and n = n]
  show ?thesis
    by (simp add: pheapify_alt)
qed

lemma pheapify_heap_root:
  assumes "2 \<le> i" "is_heap key f 1 i"
  shows "is_heap key (pheapify key (f(i := f 1, 1 := f i)) 1 (i - 1)) 1 (i - 1)"
proof -
  let ?g = "f(i := f 1, 1 := f i)"
  have "key (?g k) \<le> key (?g (k div 2))" if "1 \<le> k div 2" "k \<le> i - 1" "k div 2 \<noteq> 1" "k \<noteq> 1" for k
  proof -
    from that assms(1) have "k \<noteq> i" "k div 2 \<noteq> i" by auto
    moreover from assms(2) that have "key (f k) \<le> key (f (k div 2))"
      unfolding is_heap_def by (metis diff_le_self order_trans)
    ultimately show ?thesis using that by simp
  qed
  then have "hole_inv key (key (?g 1)) ?g 1 (i - 1) 1"
    unfolding hole_inv_def by auto
  with psift_heap[where p = 1 and key = key and t = "?g 1" and f = ?g and l = 1 and n = "i - 1"]
  show ?thesis
    by (simp add: pheapify_alt)
qed

lemma is_heap_root_max:
  assumes "is_heap key f 1 n"
  shows "1 \<le> k \<Longrightarrow> k \<le> n \<Longrightarrow> key (f k) \<le> key (f 1)"
proof (induction k rule: less_induct)
  case (less k)
  show ?case
  proof (cases "k = 1")
    case True
    then show ?thesis by simp
  next
    case False
    with less.prems have d: "1 \<le> k div 2" "k div 2 < k" "k div 2 \<le> n"
      by auto
    from assms d(1) less.prems(2) have "key (f k) \<le> key (f (k div 2))"
      unfolding is_heap_def by blast
    also have "\<dots> \<le> key (f 1)"
      using d by (intro less.IH) auto
    finally show ?thesis .
  qed
qed

lemma pbuild_heap:
  "is_heap key f (i + 1) n \<Longrightarrow> is_heap key (pbuild key i n f) 1 n"
proof (induction i arbitrary: f)
  case 0
  then show ?case by simp
next
  case (Suc i)
  have "is_heap key (pheapify key f (Suc i) n) (Suc i) n"
    using Suc.prems by (intro pheapify_heap) auto
  then show ?case
    using Suc.IH by simp
qed

lemma pbuild_perm:
  "n \<le> N \<Longrightarrow> perm_of f (pbuild key i n f) N"
proof (induction i arbitrary: f)
  case 0
  then show ?case by (simp add: perm_of_refl)
next
  case (Suc i)
  have "perm_of f (pheapify key f (Suc i) n) N"
    using Suc.prems by (intro pheapify_perm) auto
  then show ?case
    using Suc.IH[OF Suc.prems] perm_of_trans by fastforce
qed

lemma pbuild_frame:
  "i \<le> n \<Longrightarrow> \<forall>k. k < 1 \<or> n < k \<longrightarrow> pbuild key i n f k = f k"
proof (induction i arbitrary: f)
  case 0
  then show ?case by simp
next
  case (Suc i)
  have "\<forall>k. k < Suc i \<or> n < k \<longrightarrow> pheapify key f (Suc i) n k = f k"
    using Suc.prems by (intro pheapify_frame) auto
  moreover have "\<forall>k. k < 1 \<or> n < k \<longrightarrow> pbuild key i n (pheapify key f (Suc i) n) k = pheapify key f (Suc i) n k"
    using Suc.prems by (intro Suc.IH) auto
  ultimately show ?case by auto
qed

lemma sort_inv_step:
  assumes "2 \<le> i" "i \<le> n" "sort_inv key f i n"
  shows "sort_inv key (pheapify key (f(i := f 1, 1 := f i)) 1 (i - 1)) (i - 1) n"
proof -
  let ?g = "f(i := f 1, 1 := f i)"
  let ?h = "pheapify key ?g 1 (i - 1)"
  from assms(3) have heap: "is_heap key f 1 i"
    and suf: "\<And>a b. i < a \<Longrightarrow> a \<le> b \<Longrightarrow> b \<le> n \<Longrightarrow> key (f a) \<le> key (f b)"
    and pre: "\<And>a b. 1 \<le> a \<Longrightarrow> a \<le> i \<Longrightarrow> i < b \<Longrightarrow> b \<le> n \<Longrightarrow> key (f a) \<le> key (f b)"
    unfolding sort_inv_def by blast+
  have frame: "?h k = ?g k" if "k < 1 \<or> i - 1 < k" for k
    using pheapify_frame[of 1 "i - 1" key ?g] assms(1) that by auto
  have hi: "?h i = f 1" using frame[of i] assms(1) by simp
  have hb: "?h b = f b" if "i < b" for b using frame[of b] that assms(1) by simp
  have mem: "\<exists>a'. 1 \<le> a' \<and> a' \<le> i \<and> ?h a = f a'" if "1 \<le> a" "a \<le> i - 1" for a
  proof -
    have "perm_of ?g ?h (i - 1)"
      using assms(1) by (intro pheapify_perm) auto
    from perm_of_member[OF this, of a] that obtain a' where a': "a' \<in> {1..i - 1}" "?h a = ?g a'"
      by auto
    show ?thesis
    proof (cases "a' = 1")
      case True
      with a' assms(1) show ?thesis by (intro exI[of _ i]) auto
    next
      case False
      with a' assms(1) show ?thesis by (intro exI[of _ a']) auto
    qed
  qed
  have 1: "is_heap key ?h 1 (i - 1)"
    using assms(1) heap by (rule pheapify_heap_root)
  have 2: "key (?h a) \<le> key (?h b)" if "i - 1 < a" "a \<le> b" "b \<le> n" for a b
  proof (cases "a = i")
    case True
    show ?thesis
    proof (cases "b = i")
      case True
      with \<open>a = i\<close> show ?thesis by simp
    next
      case False
      with that True have "i < b" by simp
      with pre[of 1 b] that assms(1) hi hb True show ?thesis by simp
    qed
  next
    case False
    with that have "i < a" "i < b" by auto
    with suf[of a b] that hb show ?thesis by simp
  qed
  have 3: "key (?h a) \<le> key (?h b)" if "1 \<le> a" "a \<le> i - 1" "i - 1 < b" "b \<le> n" for a b
  proof -
    from mem[OF that(1,2)] obtain a' where a': "1 \<le> a'" "a' \<le> i" "?h a = f a'" by blast
    show ?thesis
    proof (cases "b = i")
      case True
      with is_heap_root_max[OF heap a'(1,2)] a'(3) hi show ?thesis by simp
    next
      case False
      with that have "i < b" by simp
      with pre[OF a'(1,2) _ that(4)] a'(3) hb show ?thesis by simp
    qed
  qed
  show ?thesis
    unfolding sort_inv_def using 1 2 3 by blast
qed

lemma psort_sorted:
  "i \<le> n \<Longrightarrow> sort_inv key f i n \<Longrightarrow>
   (\<forall>a b. 1 \<le> a \<and> a \<le> b \<and> b \<le> n \<longrightarrow> key (psort key i f a) \<le> key (psort key i f b))"
proof (induction key i f rule: psort.induct)
  case (1 key i f)
  show ?case
  proof (cases "2 \<le> i")
    case True
    have "sort_inv key (pheapify key (f(i := f 1, 1 := f i)) 1 (i - 1)) (i - 1) n"
      using True "1.prems" by (intro sort_inv_step) auto
    with "1.IH"[OF True] "1.prems"(1) True show ?thesis
      by (subst (1 2) psort.simps) simp
  next
    case False
    have "key (f a) \<le> key (f b)" if "1 \<le> a" "a \<le> b" "b \<le> n" for a b
    proof (cases "a = b")
      case True
      then show ?thesis by simp
    next
      case ne: False
      show ?thesis
      proof (cases "i < a")
        case True
        with "1.prems"(2) that show ?thesis unfolding sort_inv_def by blast
      next
        case nl: False
        with False that ne have "a \<le> i" "i < b" by auto
        with "1.prems"(2) that show ?thesis unfolding sort_inv_def by blast
      qed
    qed
    with False show ?thesis
      by (subst (1 2) psort.simps) simp
  qed
qed

lemma psort_perm:
  "i \<le> N \<Longrightarrow> perm_of f (psort key i f) N"
proof (induction key i f rule: psort.induct)
  case (1 key i f)
  show ?case
  proof (cases "2 \<le> i")
    case True
    let ?g = "f(i := f 1, 1 := f i)"
    have "perm_of f ?g N"
      using True "1.prems" by (intro perm_of_swap) auto
    moreover have "perm_of ?g (pheapify key ?g 1 (i - 1)) N"
      using "1.prems" by (intro pheapify_perm) auto
    moreover have "perm_of (pheapify key ?g 1 (i - 1)) (psort key (i - 1) (pheapify key ?g 1 (i - 1))) N"
      using "1.IH"[OF True] "1.prems" by simp
    ultimately have "perm_of f (psort key (i - 1) (pheapify key ?g 1 (i - 1))) N"
      using perm_of_trans by blast
    with True show ?thesis
      by (subst psort.simps) simp
  next
    case False
    then show ?thesis
      by (subst psort.simps) (simp add: perm_of_refl)
  qed
qed

lemma psort_frame:
  "\<forall>k. k < 1 \<or> i < k \<longrightarrow> psort key i f k = f k"
proof (induction key i f rule: psort.induct)
  case (1 key i f)
  show ?case
  proof (cases "2 \<le> i")
    case True
    let ?g = "f(i := f 1, 1 := f i)"
    have "\<forall>k. k < 1 \<or> i - 1 < k \<longrightarrow> pheapify key ?g 1 (i - 1) k = ?g k"
      using True by (intro pheapify_frame) auto
    with "1.IH"[OF True] True show ?thesis
      by (subst psort.simps) auto
  next
    case False
    then show ?thesis
      by (subst psort.simps) simp
  qed
qed

lemma pheapsort_correct:
  "(\<forall>a b. 1 \<le> a \<and> a \<le> b \<and> b \<le> n \<longrightarrow> key (pheapsort key f n a) \<le> key (pheapsort key f n b))
   \<and> perm_of f (pheapsort key f n) n
   \<and> (\<forall>k. k < 1 \<or> n < k \<longrightarrow> pheapsort key f n k = f k)"
proof -
  let ?b = "pbuild key (n div 2) n f"
  have "is_heap key f (n div 2 + 1) n"
    unfolding is_heap_def by auto
  then have heap: "is_heap key ?b 1 n"
    by (rule pbuild_heap)
  then have "sort_inv key ?b n n"
    unfolding sort_inv_def by auto
  then have 1: "\<forall>a b. 1 \<le> a \<and> a \<le> b \<and> b \<le> n \<longrightarrow> key (pheapsort key f n a) \<le> key (pheapsort key f n b)"
    unfolding pheapsort_def by (intro psort_sorted) auto
  have "perm_of f ?b n" by (intro pbuild_perm) simp
  moreover have "perm_of ?b (psort key n ?b) n" by (intro psort_perm) simp
  ultimately have 2: "perm_of f (pheapsort key f n) n"
    unfolding pheapsort_def using perm_of_trans by blast
  have "\<forall>k. k < 1 \<or> n < k \<longrightarrow> ?b k = f k"
    by (intro pbuild_frame) simp
  with psort_frame[of n key ?b] have 3: "\<forall>k. k < 1 \<or> n < k \<longrightarrow> pheapsort key f n k = f k"
    unfolding pheapsort_def by auto
  from 1 2 3 show ?thesis by blast
qed

subsection \<open>The functions of HighsSort.cpp compute the sort on total arrays\<close>

text \<open>
  As long as \<open>2 m\<close> is an \<^verbatim>\<open>int\<close>, no position that the functions compute for a heap inside
  \<open>1..m\<close> overflows.
\<close>

lemma array_of_read: "1 \<le> k \<Longrightarrow> k \<le> m \<Longrightarrow> z = int k \<Longrightarrow> array_of a m f z = Some (f k)"
  by (simp add: array_of_def)

lemma array_of_store:
  "1 \<le> k \<Longrightarrow> k \<le> m \<Longrightarrow> z = int k \<Longrightarrow> store (array_of a m f) z x = Some (array_of a m (f(k := x)))"
  by (auto simp: array_of_def store_def fun_eq_iff)

lemma array_of_self:
  "{1..int m} \<subseteq> dom a \<Longrightarrow> array_of a m (\<lambda>k. the (a (int k))) = a"
  by (auto simp: array_of_def fun_eq_iff domIff subset_iff)

lemma dom_array_of: "dom (array_of a m f) = dom a \<union> {1..int m}"
  by (auto simp: array_of_def domIff split: if_splits)

lemma in_int_ok: "0 \<le> x \<Longrightarrow> x \<le> 2 * int m \<Longrightarrow> 2 * int m \<le> INT_MAX \<Longrightarrow> in_int x = Some x"
  by (simp add: in_int_def INT_MIN_def)

lemma div2_int: "div2 (int k) = int (k div 2)"
  by (simp add: div2_def zdiv_int)

lemma max_heapify_loop_refine:
  assumes "1 \<le> p" and m: "n \<le> m" "2 * int m \<le> INT_MAX"
  shows "max_heapify_loop t (int n) (2 * int p) (array_of a m f) =
           Some (int (fst (psift (\<lambda>x. x) t n (2 * p) f)), array_of a m (snd (psift (\<lambda>x. x) t n (2 * p) f)))"
  using assms(1)
proof (induction rule: psift_induct[where key = "\<lambda>x. x" and kt = t and n = n and f = f])
  case (stop p f)
  then have "\<not> 2 * int p \<le> int n"
    by linarith
  then show ?case
    by (subst max_heapify_loop.simps) simp
next
  case (break p f)
  let ?c = "larger_child (\<lambda>x. x) n p f"
  have c: "2 * p \<le> ?c" "?c \<le> n"
    using larger_child_bounds[OF break(2)] by auto
  have le: "2 * int p \<le> int n"
    using break(2) by linarith
  have r1: "array_of a m f (2 * int p) = Some (f (2 * p))"
    using break(1,2) m c by (intro array_of_read[where k = "2 * p"]) auto
  have r2: "2 * p < n \<Longrightarrow> array_of a m f (2 * int p + 1) = Some (f (2 * p + 1))"
    using break(1,2) m c by (intro array_of_read[where k = "2 * p + 1"]) auto
  have r3: "array_of a m f (int ?c) = Some (f ?c)"
    using break(1,2) m c by (intro array_of_read[where k = ?c]) auto
  note r = r1 r2 r3
  have i1: "2 * p < n \<Longrightarrow> in_int (2 * int p + 1) = Some (2 * int p + 1)"
    using m by (intro in_int_ok[where m = m]) auto
  have ch: "(if 2 * int p < int n
       then in_int (2 * int p + 1) \<bind>
            (\<lambda>j1. array_of a m f j1 \<bind>
              (\<lambda>x. array_of a m f (2 * int p) \<bind> (\<lambda>y. Some (if x > y then j1 else 2 * int p))))
       else Some (2 * int p)) = Some (int ?c)"
    using r(1,2) i1 by (auto simp: larger_child_def)
  show ?case
    using break(3) le r(3) by (subst max_heapify_loop.simps) (simp add: ch)
next
  case (shift p f j g)
  let ?c = "larger_child (\<lambda>x. x) n p f"
  have c: "2 * p \<le> ?c" "?c \<le> n" "?c div 2 = p"
    using larger_child_bounds[OF shift(2)] by auto
  have le: "2 * int p \<le> int n"
    using shift(2) by linarith
  have r1: "array_of a m f (2 * int p) = Some (f (2 * p))"
    using shift(1,2) m c by (intro array_of_read[where k = "2 * p"]) auto
  have r2: "2 * p < n \<Longrightarrow> array_of a m f (2 * int p + 1) = Some (f (2 * p + 1))"
    using shift(1,2) m c by (intro array_of_read[where k = "2 * p + 1"]) auto
  have r3: "array_of a m f (int ?c) = Some (f ?c)"
    using shift(1,2) m c by (intro array_of_read[where k = ?c]) auto
  note r = r1 r2 r3
  have i1: "2 * p < n \<Longrightarrow> in_int (2 * int p + 1) = Some (2 * int p + 1)"
    using m by (intro in_int_ok[where m = m]) auto
  have ch: "(if 2 * int p < int n
       then in_int (2 * int p + 1) \<bind>
            (\<lambda>j1. array_of a m f j1 \<bind>
              (\<lambda>x. array_of a m f (2 * int p) \<bind> (\<lambda>y. Some (if x > y then j1 else 2 * int p))))
       else Some (2 * int p)) = Some (int ?c)"
    using r(1,2) i1 by (auto simp: larger_child_def)
  have d2: "div2 (int ?c) = int p"
    using c(3) by (simp add: div2_int)
  have w: "store (array_of a m f) (int p) (f ?c) = Some (array_of a m (f(p := f ?c)))"
    using shift(1,2) m by (intro array_of_store[where k = p]) auto
  have i2: "in_int (2 * int ?c) = Some (2 * int ?c)"
    using m c(2) by (intro in_int_ok[where m = m]) auto
  have "max_heapify_loop t (int n) (2 * int p) (array_of a m f) =
      max_heapify_loop t (int n) (2 * int ?c) (array_of a m (f(p := f ?c)))"
    using shift(3) le r(3) w d2 i2
    by (subst max_heapify_loop.simps) (simp add: ch)
  also have "\<dots> = Some (int j, array_of a m g)"
    by (rule shift(5))
  finally show ?case .
qed

lemma max_heapify_refine:
  assumes "1 \<le> i" "i \<le> n" "n \<le> m" "2 * int m \<le> INT_MAX"
  shows "max_heapify (array_of a m f) (int i) (int n) = Some (array_of a m (pheapify (\<lambda>x. x) f i n))"
proof -
  let ?r = "psift (\<lambda>x. x) (f i) n (2 * i) f"
  have "1 \<le> fst ?r div 2 \<and> fst ?r div 2 \<le> m"
    using psift_range[OF assms(1), where key = "\<lambda>x. x" and kt = "f i" and n = n and f = f] assms
    by auto
  then have "store (array_of a m (snd ?r)) (div2 (int (fst ?r))) (f i) = Some (array_of a m ((snd ?r)(fst ?r div 2 := f i)))"
    by (intro array_of_store[where k = "fst ?r div 2"]) (auto simp: div2_int)
  moreover have "array_of a m f (int i) = Some (f i)"
    using assms by (intro array_of_read[where k = i]) auto
  moreover have "in_int (2 * int i) = Some (2 * int i)"
    using assms by (intro in_int_ok[where m = m]) auto
  ultimately show ?thesis
    using max_heapify_loop_refine[OF assms(1,3,4), of "f i" a f]
    by (simp add: max_heapify_def pheapify_alt)
qed

lemma build_maxheap_from_refine:
  "i \<le> n \<Longrightarrow> n \<le> m \<Longrightarrow> 2 * int m \<le> INT_MAX \<Longrightarrow>
   build_maxheap_from (int i) (int n) (array_of a m f) = Some (array_of a m (pbuild (\<lambda>x. x) i n f))"
proof (induction i arbitrary: f)
  case 0
  then show ?case by (simp add: build_maxheap_from.simps)
next
  case (Suc i)
  have "max_heapify (array_of a m f) (int (Suc i)) (int n) = Some (array_of a m (pheapify (\<lambda>x. x) f (Suc i) n))"
    using Suc.prems by (intro max_heapify_refine) auto
  then show ?case
    using Suc.IH[of "pheapify (\<lambda>x. x) f (Suc i) n"] Suc.prems
    by (subst build_maxheap_from.simps) simp
qed

lemma max_heapsort_from_refine:
  "i \<le> m \<Longrightarrow> 2 * int m \<le> INT_MAX \<Longrightarrow>
   max_heapsort_from (int i) (array_of a m f) = Some (array_of a m (psort (\<lambda>x. x) i f))"
proof (induction "\<lambda>x::int. x" i f rule: psort.induct)
  case (1 i f)
  show ?case
  proof (cases "2 \<le> i")
    case True
    let ?g = "f(i := f 1, 1 := f i)"
    have r: "array_of a m f (int i) = Some (f i)" "array_of a m f 1 = Some (f 1)"
      using True "1.prems" by (auto simp: array_of_def)
    have w1: "store (array_of a m f) (int i) (f 1) = Some (array_of a m (f(i := f 1)))"
      using True "1.prems" by (intro array_of_store[where k = i]) auto
    have w2: "store (array_of a m (f(i := f 1))) 1 (f i) = Some (array_of a m ?g)"
      using True "1.prems" by (intro array_of_store[where k = 1]) auto
    have "max_heapify (array_of a m ?g) (int 1) (int (i - 1)) = Some (array_of a m (pheapify (\<lambda>x. x) ?g 1 (i - 1)))"
      using True "1.prems" by (intro max_heapify_refine) auto
    then have h: "max_heapify (array_of a m ?g) 1 (int i - 1) = Some (array_of a m (pheapify (\<lambda>x. x) ?g 1 (i - 1)))"
      using True by (simp add: of_nat_diff)
    have "max_heapsort_from (int i) (array_of a m f) =
        max_heapsort_from (int i - 1) (array_of a m (pheapify (\<lambda>x. x) ?g 1 (i - 1)))"
      using True r w1 w2 h by (subst max_heapsort_from.simps) simp
    also have "\<dots> = max_heapsort_from (int (i - 1)) (array_of a m (pheapify (\<lambda>x. x) ?g 1 (i - 1)))"
      using True by (simp add: of_nat_diff)
    also have "\<dots> = Some (array_of a m (psort (\<lambda>x. x) (i - 1) (pheapify (\<lambda>x. x) ?g 1 (i - 1))))"
      using "1.hyps"[OF True] "1.prems" by simp
    also have "\<dots> = Some (array_of a m (psort (\<lambda>x. x) i f))"
      using True by (subst (2) psort.simps) simp
    finally show ?thesis .
  next
    case False
    then show ?thesis
      by (subst max_heapsort_from.simps, subst psort.simps) simp
  qed
qed

lemma maxheapsort_refine:
  assumes "2 * int n \<le> INT_MAX"
  shows "maxheapsort (array_of a n f) (int n) = Some (array_of a n (pheapsort (\<lambda>x. x) f n))"
  using build_maxheap_from_refine[of "n div 2" n n a f] max_heapsort_from_refine[of n n a] assms
  by (simp add: maxheapsort_def build_maxheap_def max_heapsort_def pheapsort_def div2_int)

subsection \<open>The value-index overload\<close>

lemma dgt_drank: "a \<noteq> DNaN \<Longrightarrow> b \<noteq> DNaN \<Longrightarrow> dgt a b \<longleftrightarrow> drank b < drank a"
  by (cases a; cases b) (auto simp: dgt_def)

lemma dle_drank: "a \<noteq> DNaN \<Longrightarrow> b \<noteq> DNaN \<Longrightarrow> dle a b \<longleftrightarrow> drank a \<le> drank b"
  by (cases a; cases b) (auto simp: dle_def)

lemma values_of_upd: "values_of (f(k := x)) = (values_of f)(k := fst x)"
  by (auto simp: values_of_def fun_eq_iff)

lemma indices_of_upd: "indices_of (f(k := x)) = (indices_of f)(k := snd x)"
  by (auto simp: indices_of_def fun_eq_iff)

lemma array_of_read_fst:
  "1 \<le> k \<Longrightarrow> k \<le> m \<Longrightarrow> z = int k \<Longrightarrow> array_of a m (values_of f) z = Some (fst (f k))"
  by (simp add: array_of_def values_of_def)

lemma array_of_read_snd:
  "1 \<le> k \<Longrightarrow> k \<le> m \<Longrightarrow> z = int k \<Longrightarrow> array_of a m (indices_of f) z = Some (snd (f k))"
  by (simp add: array_of_def indices_of_def)

lemma array_of_store_fst:
  "1 \<le> k \<Longrightarrow> k \<le> m \<Longrightarrow> z = int k \<Longrightarrow>
   store (array_of a m (values_of f)) z (fst x) = Some (array_of a m (values_of (f(k := x))))"
  by (simp add: array_of_store[where k = k] values_of_upd)

lemma array_of_store_snd:
  "1 \<le> k \<Longrightarrow> k \<le> m \<Longrightarrow> z = int k \<Longrightarrow>
   store (array_of a m (indices_of f)) z (snd x) = Some (array_of a m (indices_of (f(k := x))))"
  by (simp add: array_of_store[where k = k] indices_of_upd)

lemma larger_child_vi:
  assumes "1 \<le> p" "2 * p \<le> n" and m: "n \<le> m" "2 * int m \<le> INT_MAX"
    and nn: "\<forall>k\<in>{1..n}. fst (f k) \<noteq> DNaN"
  shows "(if 2 * int p < int n
       then in_int (2 * int p + 1) \<bind>
            (\<lambda>j1. array_of av m (values_of f) j1 \<bind>
              (\<lambda>x. array_of av m (values_of f) (2 * int p) \<bind> (\<lambda>y. Some (if dgt x y then j1 else 2 * int p))))
       else Some (2 * int p)) = Some (int (larger_child vkey n p f))"
proof -
  have r1: "array_of av m (values_of f) (2 * int p) = Some (fst (f (2 * p)))"
    using assms(1,2) m by (intro array_of_read_fst[where k = "2 * p"]) auto
  have r2: "2 * p < n \<Longrightarrow> array_of av m (values_of f) (2 * int p + 1) = Some (fst (f (2 * p + 1)))"
    using assms(1,2) m by (intro array_of_read_fst[where k = "2 * p + 1"]) auto
  have i1: "2 * p < n \<Longrightarrow> in_int (2 * int p + 1) = Some (2 * int p + 1)"
    using m by (intro in_int_ok[where m = m]) auto
  have n1: "fst (f (2 * p)) \<noteq> DNaN" "2 * p < n \<Longrightarrow> fst (f (2 * p + 1)) \<noteq> DNaN"
    using nn assms(1,2) by auto
  show ?thesis
    using n1 r1 r2 i1 by (auto simp: larger_child_def dgt_drank vkey_def)
qed

lemma max_heapify_vi_loop_refine:
  assumes "1 \<le> p" and m: "n \<le> m" "2 * int m \<le> INT_MAX" and tv: "tv \<noteq> DNaN"
  shows "(\<forall>k\<in>{1..n}. fst (f k) \<noteq> DNaN) \<longrightarrow>
         max_heapify_vi_loop tv (int n) (2 * int p) (array_of av m (values_of f)) (array_of ai m (indices_of f)) =
           Some (int (fst (psift vkey (drank tv) n (2 * p) f)),
                 array_of av m (values_of (snd (psift vkey (drank tv) n (2 * p) f))),
                 array_of ai m (indices_of (snd (psift vkey (drank tv) n (2 * p) f))))"
  using assms(1)
proof (induction rule: psift_induct[where key = vkey and kt = "drank tv" and n = n and f = f])
  case (stop p f)
  then have "\<not> 2 * int p \<le> int n"
    by linarith
  then show ?case
    by (subst max_heapify_vi_loop.simps) simp
next
  case (break p f)
  let ?c = "larger_child vkey n p f"
  show ?case
  proof
    assume nn: "\<forall>k\<in>{1..n}. fst (f k) \<noteq> DNaN"
    have c: "2 * p \<le> ?c" "?c \<le> n"
      using larger_child_bounds[OF break(2)] by auto
    have le: "2 * int p \<le> int n"
      using break(2) by linarith
    have r3: "array_of av m (values_of f) (int ?c) = Some (fst (f ?c))"
      using break(1,2) m c by (intro array_of_read_fst[where k = ?c]) auto
    have n3: "fst (f ?c) \<noteq> DNaN"
      using nn break(1,2) c by auto
    have gt: "dgt tv (fst (f ?c))"
      using break(3) tv n3 by (simp add: dgt_drank vkey_def)
    note ch = larger_child_vi[OF break(1,2) m nn, of av]
    show "max_heapify_vi_loop tv (int n) (2 * int p) (array_of av m (values_of f)) (array_of ai m (indices_of f)) =
        Some (int ?c, array_of av m (values_of f), array_of ai m (indices_of f))"
      using le r3 gt by (subst max_heapify_vi_loop.simps) (simp add: ch)
  qed
next
  case (shift p f j g)
  let ?c = "larger_child vkey n p f"
  let ?f = "f(p := f ?c)"
  show ?case
  proof
    assume nn: "\<forall>k\<in>{1..n}. fst (f k) \<noteq> DNaN"
    have c: "2 * p \<le> ?c" "?c \<le> n" "?c div 2 = p"
      using larger_child_bounds[OF shift(2)] by auto
    have le: "2 * int p \<le> int n"
      using shift(2) by linarith
    have r3: "array_of av m (values_of f) (int ?c) = Some (fst (f ?c))"
      using shift(1,2) m c by (intro array_of_read_fst[where k = ?c]) auto
    have r4: "array_of ai m (indices_of f) (int ?c) = Some (snd (f ?c))"
      using shift(1,2) m c by (intro array_of_read_snd[where k = ?c]) auto
    have n3: "fst (f ?c) \<noteq> DNaN"
      using nn shift(1,2) c by auto
    have ngt: "\<not> dgt tv (fst (f ?c))" and dl: "dle tv (fst (f ?c))"
      using shift(3) tv n3 by (auto simp: dgt_drank dle_drank vkey_def)
    note ch = larger_child_vi[OF shift(1,2) m nn, of av]
    have d2: "div2 (int ?c) = int p"
      using c(3) by (simp add: div2_int)
    have w1: "store (array_of av m (values_of f)) (int p) (fst (f ?c)) = Some (array_of av m (values_of ?f))"
      using shift(1,2) m by (intro array_of_store_fst[where k = p]) auto
    have w2: "store (array_of ai m (indices_of f)) (int p) (snd (f ?c)) = Some (array_of ai m (indices_of ?f))"
      using shift(1,2) m by (intro array_of_store_snd[where k = p]) auto
    have i2: "in_int (2 * int ?c) = Some (2 * int ?c)"
      using m c(2) by (intro in_int_ok[where m = m]) auto
    have nn': "\<forall>k\<in>{1..n}. fst (?f k) \<noteq> DNaN"
      using nn n3 by auto
    have "max_heapify_vi_loop tv (int n) (2 * int p) (array_of av m (values_of f)) (array_of ai m (indices_of f)) =
        max_heapify_vi_loop tv (int n) (2 * int ?c) (array_of av m (values_of ?f)) (array_of ai m (indices_of ?f))"
      using le r3 r4 ngt dl w1 w2 d2 i2
      by (subst max_heapify_vi_loop.simps) (simp add: ch)
    also have "\<dots> = Some (int j, array_of av m (values_of g), array_of ai m (indices_of g))"
      using shift(5) nn' by blast
    finally show "max_heapify_vi_loop tv (int n) (2 * int p) (array_of av m (values_of f)) (array_of ai m (indices_of f)) =
        Some (int j, array_of av m (values_of g), array_of ai m (indices_of g))" .
  qed
qed

lemma max_heapify_vi_refine:
  assumes "1 \<le> i" "i \<le> n" "n \<le> m" "2 * int m \<le> INT_MAX" "\<forall>k\<in>{1..n}. fst (f k) \<noteq> DNaN"
  shows "max_heapify_vi (array_of av m (values_of f)) (array_of ai m (indices_of f)) (int i) (int n) =
           Some (array_of av m (values_of (pheapify vkey f i n)), array_of ai m (indices_of (pheapify vkey f i n)))"
proof -
  let ?r = "psift vkey (drank (fst (f i))) n (2 * i) f"
  have tv: "fst (f i) \<noteq> DNaN"
    using assms by auto
  have "fst ?r div 2 \<in> {1..n}"
    using psift_range[OF assms(1), where key = vkey and kt = "drank (fst (f i))" and n = n and f = f] assms
    by auto
  with assms have jd: "1 \<le> fst ?r div 2" "fst ?r div 2 \<le> m"
    by auto
  have w1: "store (array_of av m (values_of (snd ?r))) (div2 (int (fst ?r))) (fst (f i))
        = Some (array_of av m (values_of ((snd ?r)(fst ?r div 2 := f i))))"
    using jd by (intro array_of_store_fst[where k = "fst ?r div 2"]) (auto simp: div2_int)
  have w2: "store (array_of ai m (indices_of (snd ?r))) (div2 (int (fst ?r))) (snd (f i))
        = Some (array_of ai m (indices_of ((snd ?r)(fst ?r div 2 := f i))))"
    using jd by (intro array_of_store_snd[where k = "fst ?r div 2"]) (auto simp: div2_int)
  have r1: "array_of av m (values_of f) (int i) = Some (fst (f i))"
    using assms by (intro array_of_read_fst[where k = i]) auto
  have r2: "array_of ai m (indices_of f) (int i) = Some (snd (f i))"
    using assms by (intro array_of_read_snd[where k = i]) auto
  have ii: "in_int (2 * int i) = Some (2 * int i)"
    using assms by (intro in_int_ok[where m = m]) auto
  have "max_heapify_vi_loop (fst (f i)) (int n) (2 * int i) (array_of av m (values_of f)) (array_of ai m (indices_of f)) =
      Some (int (fst ?r), array_of av m (values_of (snd ?r)), array_of ai m (indices_of (snd ?r)))"
    using max_heapify_vi_loop_refine[OF assms(1,3,4) tv, of f av ai] assms(5) by blast
  then show ?thesis
    using r1 r2 w1 w2 ii by (simp add: max_heapify_vi_def pheapify_alt vkey_def)
qed

lemma perm_of_no_nan:
  assumes "perm_of f g n" "\<forall>k\<in>{1..n}. fst (f k) \<noteq> DNaN"
  shows "\<forall>k\<in>{1..n}. fst (g k) \<noteq> DNaN"
proof
  fix k assume "k \<in> {1..n}"
  from perm_of_member[OF assms(1) this] assms(2) show "fst (g k) \<noteq> DNaN"
    by auto
qed

lemma build_maxheap_vi_from_refine:
  "i \<le> n \<Longrightarrow> n \<le> m \<Longrightarrow> 2 * int m \<le> INT_MAX \<Longrightarrow> \<forall>k\<in>{1..n}. fst (f k) \<noteq> DNaN \<Longrightarrow>
   build_maxheap_vi_from (int i) (int n) (array_of av m (values_of f)) (array_of ai m (indices_of f)) =
     Some (array_of av m (values_of (pbuild vkey i n f)), array_of ai m (indices_of (pbuild vkey i n f)))"
proof (induction i arbitrary: f)
  case 0
  then show ?case by (simp add: build_maxheap_vi_from.simps)
next
  case (Suc i)
  let ?h = "pheapify vkey f (Suc i) n"
  have "max_heapify_vi (array_of av m (values_of f)) (array_of ai m (indices_of f)) (int (Suc i)) (int n) =
      Some (array_of av m (values_of ?h), array_of ai m (indices_of ?h))"
    using Suc.prems by (intro max_heapify_vi_refine) auto
  moreover have "perm_of f ?h n"
    by (intro pheapify_perm) auto
  then have "\<forall>k\<in>{1..n}. fst (?h k) \<noteq> DNaN"
    using Suc.prems(4) by (rule perm_of_no_nan)
  ultimately show ?case
    using Suc.IH[of ?h] Suc.prems
    by (subst build_maxheap_vi_from.simps) simp
qed

lemma max_heapsort_vi_from_refine:
  "i \<le> m \<Longrightarrow> 2 * int m \<le> INT_MAX \<Longrightarrow> \<forall>k\<in>{1..m}. fst (f k) \<noteq> DNaN \<Longrightarrow>
   max_heapsort_vi_from (int i) (array_of av m (values_of f)) (array_of ai m (indices_of f)) =
     Some (array_of av m (values_of (psort vkey i f)), array_of ai m (indices_of (psort vkey i f)))"
proof (induction vkey i f rule: psort.induct)
  case (1 i f)
  show ?case
  proof (cases "2 \<le> i")
    case True
    let ?g = "f(i := f 1, 1 := f i)"
    let ?h = "pheapify vkey ?g 1 (i - 1)"
    have r: "array_of av m (values_of f) (int i) = Some (fst (f i))"
      "array_of av m (values_of f) 1 = Some (fst (f 1))"
      "array_of ai m (indices_of f) (int i) = Some (snd (f i))"
      "array_of ai m (indices_of f) 1 = Some (snd (f 1))"
      using True "1.prems" by (auto simp: array_of_def values_of_def indices_of_def)
    have w1a: "store (array_of av m (values_of f)) (int i) (fst (f 1)) = Some (array_of av m (values_of (f(i := f 1))))"
      using True "1.prems" by (intro array_of_store_fst[where k = i]) auto
    have w1b: "store (array_of ai m (indices_of f)) (int i) (snd (f 1)) = Some (array_of ai m (indices_of (f(i := f 1))))"
      using True "1.prems" by (intro array_of_store_snd[where k = i]) auto
    have w2a: "store (array_of av m (values_of (f(i := f 1)))) 1 (fst (f i)) = Some (array_of av m (values_of ?g))"
      using True "1.prems" by (intro array_of_store_fst[where k = 1]) auto
    have w2b: "store (array_of ai m (indices_of (f(i := f 1)))) 1 (snd (f i)) = Some (array_of ai m (indices_of ?g))"
      using True "1.prems" by (intro array_of_store_snd[where k = 1]) auto
    note w1 = w1a w1b and w2 = w2a w2b
    have "{1..i - 1} \<subseteq> {1..m}"
      using "1.prems"(1) by auto
    have pg: "perm_of f ?g m"
      using True "1.prems"(1) by (intro perm_of_swap) auto
    then have ng: "\<forall>k\<in>{1..m}. fst (?g k) \<noteq> DNaN"
      using "1.prems"(3) by (rule perm_of_no_nan)
    then have ng': "\<forall>k\<in>{1..i - 1}. fst (?g k) \<noteq> DNaN"
      using \<open>{1..i - 1} \<subseteq> {1..m}\<close> by blast
    have "perm_of ?g ?h m"
      using "1.prems"(1) by (intro pheapify_perm) auto
    then have nh: "\<forall>k\<in>{1..m}. fst (?h k) \<noteq> DNaN"
      using ng by (rule perm_of_no_nan)
    have "max_heapify_vi (array_of av m (values_of ?g)) (array_of ai m (indices_of ?g)) (int 1) (int (i - 1)) =
        Some (array_of av m (values_of ?h), array_of ai m (indices_of ?h))"
      using True "1.prems" ng' by (intro max_heapify_vi_refine) auto
    then have h: "max_heapify_vi (array_of av m (values_of ?g)) (array_of ai m (indices_of ?g)) 1 (int i - 1) =
        Some (array_of av m (values_of ?h), array_of ai m (indices_of ?h))"
      using True by (simp add: of_nat_diff)
    have "max_heapsort_vi_from (int i) (array_of av m (values_of f)) (array_of ai m (indices_of f)) =
        max_heapsort_vi_from (int i - 1) (array_of av m (values_of ?h)) (array_of ai m (indices_of ?h))"
      using True r w1 w2 h by (subst max_heapsort_vi_from.simps) simp
    also have "\<dots> = max_heapsort_vi_from (int (i - 1)) (array_of av m (values_of ?h)) (array_of ai m (indices_of ?h))"
      using True by (simp add: of_nat_diff)
    also have "\<dots> = Some (array_of av m (values_of (psort vkey (i - 1) ?h)), array_of ai m (indices_of (psort vkey (i - 1) ?h)))"
      using "1.hyps"[OF True] "1.prems" nh by simp
    also have "psort vkey (i - 1) ?h = psort vkey i f"
      using True by (subst (2) psort.simps) simp
    finally show ?thesis .
  next
    case False
    then show ?thesis
      by (subst max_heapsort_vi_from.simps, subst (1 2) psort.simps) simp
  qed
qed

lemma maxheapsort_vi_refine:
  assumes "2 * int n \<le> INT_MAX" "\<forall>k\<in>{1..n}. fst (f k) \<noteq> DNaN"
  shows "maxheapsort_vi (array_of av n (values_of f)) (array_of ai n (indices_of f)) (int n) =
           Some (array_of av n (values_of (pheapsort vkey f n)), array_of ai n (indices_of (pheapsort vkey f n)))"
proof -
  let ?b = "pbuild vkey (n div 2) n f"
  have b: "build_maxheap_vi_from (int (n div 2)) (int n) (array_of av n (values_of f)) (array_of ai n (indices_of f)) =
      Some (array_of av n (values_of ?b), array_of ai n (indices_of ?b))"
    using assms by (intro build_maxheap_vi_from_refine) auto
  have "perm_of f ?b n"
    by (intro pbuild_perm) simp
  then have "\<forall>k\<in>{1..n}. fst (?b k) \<noteq> DNaN"
    using assms(2) by (rule perm_of_no_nan)
  then have "max_heapsort_vi_from (int n) (array_of av n (values_of ?b)) (array_of ai n (indices_of ?b)) =
      Some (array_of av n (values_of (psort vkey n ?b)), array_of ai n (indices_of (psort vkey n ?b)))"
    using assms by (intro max_heapsort_vi_from_refine) auto
  with b show ?thesis
    by (simp add: maxheapsort_vi_def build_maxheap_vi_def max_heapsort_vi_def pheapsort_def div2_int del: of_nat_div)
qed

text \<open>
  With a NaN in \<^verbatim>\<open>temp_v\<close> both tests of the loop fail, and the loop goes round with nothing
  changed: it has no result.
\<close>

lemma max_heapify_vi_loop_nan: "max_heapify_vi_loop DNaN 2 2 nan_v nan_i = None"
proof (rule ccontr)
  assume "max_heapify_vi_loop DNaN 2 2 nan_v nan_i \<noteq> None"
  then obtain y where y: "max_heapify_vi_loop DNaN 2 2 nan_v nan_i = Some y"
    by blast
  have "\<not> (DNaN = DNaN \<and> (2::int) = 2 \<and> (2::int) = 2 \<and> nan_v = nan_v \<and> nan_i = nan_i)"
  proof (rule max_heapify_vi_loop.raw_induct[OF _ y,
        where P = "\<lambda>tv n j hv hi y. \<not> (tv = DNaN \<and> n = 2 \<and> j = 2 \<and> hv = nan_v \<and> hi = nan_i)"])
    fix loop :: "double \<Rightarrow> int \<Rightarrow> int \<Rightarrow> double array \<Rightarrow> int array \<Rightarrow> (int \<times> double array \<times> int array) option"
      and temp_v n j heap_v heap_i r
    assume IH: "\<And>tv n j hv hi y. loop tv n j hv hi = Some y
        \<Longrightarrow> \<not> (tv = DNaN \<and> n = 2 \<and> j = 2 \<and> hv = nan_v \<and> hi = nan_i)"
      and step: "(if j \<le> n
      then (if j < n
            then in_int (j + 1) \<bind>
                 (\<lambda>j1. heap_v j1 \<bind>
                    (\<lambda>a. heap_v j \<bind> (\<lambda>b. Some (if dgt a b then j1 else j))))
            else Some j) \<bind>
           (\<lambda>j. heap_v j \<bind>
                (\<lambda>c. if dgt temp_v c then Some (j, heap_v, heap_i)
                     else if dle temp_v c
                          then store heap_v (div2 j) c \<bind>
                               (\<lambda>heap_v.
                                   heap_i j \<bind>
                                   (\<lambda>ci. store heap_i (div2 j) ci \<bind>
                                      (\<lambda>heap_i. in_int (2 * j) \<bind> (\<lambda>j. loop temp_v n j heap_v heap_i))))
                          else loop temp_v n j heap_v heap_i))
      else Some (j, heap_v, heap_i)) = Some r"
    show "\<not> (temp_v = DNaN \<and> n = 2 \<and> j = 2 \<and> heap_v = nan_v \<and> heap_i = nan_i)"
    proof
      assume a: "temp_v = DNaN \<and> n = 2 \<and> j = 2 \<and> heap_v = nan_v \<and> heap_i = nan_i"
      with step have "loop DNaN 2 2 nan_v nan_i = Some r"
        by (simp add: nan_v_def dgt_def dle_def)
      from IH[OF this] show False by simp
    qed
  qed
  then show False by simp
qed

lemma maxheapsort_vi_nan: "maxheapsort_vi nan_v nan_i 2 = None"
proof -
  have "max_heapify_vi nan_v nan_i 1 2 = None"
    using max_heapify_vi_loop_nan by (simp add: max_heapify_vi_def nan_v_def nan_i_def in_int_def INT_MAX_def INT_MIN_def)
  then show ?thesis
    by (simp add: maxheapsort_vi_def build_maxheap_vi_def build_maxheap_vi_from.simps div2_def)
qed

subsection \<open>The sort is correct\<close>

lemma sorted_wrt_upto:
  assumes "\<And>a b. i \<le> a \<Longrightarrow> a < b \<Longrightarrow> b \<le> j \<Longrightarrow> P (F a) (F b)"
  shows "sorted_wrt P (map F [i..j])"
proof -
  have "sorted_wrt (<) [i..j]"
    by (simp add: strict_sorted_iff)
  then have "sorted_wrt (\<lambda>x y. P (F x) (F y)) [i..j]"
    by (rule sorted_wrt_mono_rel[rotated]) (use assms in auto)
  then show ?thesis
    by (simp add: sorted_wrt_map)
qed

lemma mset_upto_bij:
  assumes "bij_betw p {i..j} {i..j}" "\<forall>k\<in>{i..j}. h k = g (p k)"
  shows "mset (map h [i..j]) = mset (map g [i..j])"
proof -
  have m: "mset [i..j] = mset_set {i..j}"
    using mset_set_set[OF distinct_upto, of i j] by simp
  have "image_mset h (mset_set {i..j}) = image_mset (\<lambda>k. g (p k)) (mset_set {i..j})"
    using assms(2) by (intro image_mset_cong) simp
  also have "\<dots> = image_mset g (image_mset p (mset_set {i..j}))"
    by (simp add: multiset.map_comp comp_def)
  also have "image_mset p (mset_set {i..j}) = mset_set (p ` {i..j})"
    using assms(1) by (intro image_mset_mset_set) (rule bij_betw_imp_inj_on)
  also have "p ` {i..j} = {i..j}"
    using assms(1) by (rule bij_betw_imp_surj_on)
  finally show ?thesis
    by (simp add: m)
qed

lemma bij_betw_int:
  assumes "bij_betw p {1..N} {1..N}"
  shows "bij_betw (\<lambda>z. int (p (nat z))) {1..int N} {1..int N}"
proof -
  have a: "bij_betw nat {1..int N} {1..N}"
    by (rule bij_betw_byWitness[where f' = int]) auto
  have b: "bij_betw int {1..N} {1..int N}"
    by (rule bij_betw_byWitness[where f' = nat]) auto
  from bij_betw_trans[OF bij_betw_trans[OF a assms] b] show ?thesis
    by (simp add: comp_def)
qed

lemma array_of_eq_on:
  "array_of a m f = array_of a m g \<Longrightarrow> 1 \<le> k \<Longrightarrow> k \<le> m \<Longrightarrow> f k = g k"
  by (metis array_of_read option.inject)

lemma array_of_cong:
  "(\<And>k. 1 \<le> k \<Longrightarrow> k \<le> m \<Longrightarrow> f k = g k) \<Longrightarrow> array_of a m f = array_of a m g"
  by (auto simp: array_of_def fun_eq_iff)

lemma pheapsort_int_cong:
  assumes "\<forall>k\<in>{1..n}. f k = f' k" and n: "2 * int n \<le> INT_MAX"
  shows "\<forall>k\<in>{1..n}. pheapsort (\<lambda>x::int. x) f n k = pheapsort (\<lambda>x. x) f' n k"
proof
  fix k assume k: "k \<in> {1..n}"
  let ?a = "\<lambda>z::int. None :: int option"
  have "array_of ?a n f = array_of ?a n f'"
    using assms(1) by (intro array_of_cong) auto
  then have "maxheapsort (array_of ?a n f) (int n) = maxheapsort (array_of ?a n f') (int n)"
    by simp
  then have "array_of ?a n (pheapsort (\<lambda>x. x) f n) = array_of ?a n (pheapsort (\<lambda>x. x) f' n)"
    using n by (simp add: maxheapsort_refine)
  then show "pheapsort (\<lambda>x. x) f n k = pheapsort (\<lambda>x. x) f' n k"
    using k by (intro array_of_eq_on[where a = ?a and m = n]) auto
qed

lemma pheapsort_vi_cong:
  assumes "\<forall>k\<in>{1..n}. f k = f' k" and nn: "\<forall>k\<in>{1..n}. fst (f k) \<noteq> DNaN" and n: "2 * int n \<le> INT_MAX"
  shows "\<forall>k\<in>{1..n}. pheapsort vkey f n k = pheapsort vkey f' n k"
proof
  fix k assume k: "k \<in> {1..n}"
  let ?a = "\<lambda>z::int. None :: double option"
  let ?b = "\<lambda>z::int. None :: int option"
  have nn': "\<forall>k\<in>{1..n}. fst (f' k) \<noteq> DNaN"
    using assms by auto
  have "array_of ?a n (values_of f) = array_of ?a n (values_of f')"
    "array_of ?b n (indices_of f) = array_of ?b n (indices_of f')"
    using assms(1) by (auto intro!: array_of_cong simp: values_of_def indices_of_def)
  then have "maxheapsort_vi (array_of ?a n (values_of f)) (array_of ?b n (indices_of f)) (int n) =
      maxheapsort_vi (array_of ?a n (values_of f')) (array_of ?b n (indices_of f')) (int n)"
    by simp
  then have "array_of ?a n (values_of (pheapsort vkey f n)) = array_of ?a n (values_of (pheapsort vkey f' n))"
    "array_of ?b n (indices_of (pheapsort vkey f n)) = array_of ?b n (indices_of (pheapsort vkey f' n))"
    using nn nn' n by (simp_all add: maxheapsort_vi_refine)
  then have "values_of (pheapsort vkey f n) k = values_of (pheapsort vkey f' n) k"
    "indices_of (pheapsort vkey f n) k = indices_of (pheapsort vkey f' n) k"
    using k by (auto intro: array_of_eq_on[where a = ?a and m = n] array_of_eq_on[where a = ?b and m = n])
  then show "pheapsort vkey f n k = pheapsort vkey f' n k"
    by (simp add: values_of_def indices_of_def prod_eq_iff)
qed

lemma maxheapsort_int_correct:
  assumes n: "0 \<le> n" "2 * n \<le> INT_MAX" and sub: "{1..n} \<subseteq> dom heap_v"
  shows "\<exists>h. maxheapsort heap_v n = Some h
         \<and> dom h = dom heap_v \<and> (\<forall>k. k < 1 \<or> n < k \<longrightarrow> h k = heap_v k)
         \<and> sorted (map (\<lambda>k. the (h k)) [1..n])
         \<and> (\<exists>p. bij_betw p {1..n} {1..n} \<and> (\<forall>k\<in>{1..n}. h k = heap_v (p k)))
         \<and> mset (map h [1..n]) = mset (map heap_v [1..n])
         \<and> (\<forall>w. (\<forall>k\<in>{1..n}. w k = heap_v k) \<longrightarrow>
               (\<exists>h'. maxheapsort w n = Some h' \<and> (\<forall>k\<in>{1..n}. h' k = h k)))"
proof -
  define N where "N = nat n"
  have nN: "n = int N"
    using n(1) by (simp add: N_def)
  have N2: "2 * int N \<le> INT_MAX"
    using n(2) by (simp add: nN)
  define f where "f = (\<lambda>k. the (heap_v (int k)))"
  define g where "g = pheapsort (\<lambda>x::int. x) f N"
  define H where "H = array_of heap_v N g"
  have hv: "array_of heap_v N f = heap_v"
    unfolding f_def using sub by (intro array_of_self) (simp add: nN)
  have "maxheapsort (array_of heap_v N f) (int N) = Some H"
    unfolding H_def g_def using N2 by (rule maxheapsort_refine)
  then have run: "maxheapsort heap_v n = Some H"
    by (simp add: hv nN)
  from pheapsort_correct[of N "\<lambda>x::int. x" f]
  have ord: "\<And>a b. 1 \<le> a \<Longrightarrow> a \<le> b \<Longrightarrow> b \<le> N \<Longrightarrow> g a \<le> g b"
    and perm: "perm_of f g N"
    unfolding g_def by blast+
  have rd: "H z = Some (g (nat z))" "heap_v z = Some (f (nat z))" if "z \<in> {1..n}" for z
    using that sub by (auto simp: H_def array_of_def nN f_def subset_iff domIff)
  have 1: "dom H = dom heap_v"
    using sub by (auto simp: H_def dom_array_of nN)
  have 2: "\<forall>k. k < 1 \<or> n < k \<longrightarrow> H k = heap_v k"
    by (auto simp: H_def array_of_def nN)
  have 3: "sorted (map (\<lambda>k. the (H k)) [1..n])"
  proof (rule sorted_wrt_upto)
    fix a b :: int assume ab: "1 \<le> a" "a < b" "b \<le> n"
    then have "g (nat a) \<le> g (nat b)"
      by (intro ord) (auto simp: nN)
    with ab show "the (H a) \<le> the (H b)"
      by (simp add: rd)
  qed
  from perm obtain p where p: "bij_betw p {1..N} {1..N}" "\<forall>k\<in>{1..N}. g k = f (p k)"
    unfolding perm_of_def by blast
  define p' where "p' = (\<lambda>z. int (p (nat z)))"
  have bp: "bij_betw p' {1..n} {1..n}"
    unfolding p'_def nN using p(1) by (rule bij_betw_int)
  have pk: "p' z \<in> {1..n}" if "z \<in> {1..n}" for z
    using bp that by (rule bij_betw_apply)
  have 4: "\<forall>k\<in>{1..n}. H k = heap_v (p' k)"
  proof
    fix k assume k: "k \<in> {1..n}"
    then have "nat k \<in> {1..N}"
      by (auto simp: nN)
    with p(2) have "g (nat k) = f (p (nat k))"
      by blast
    with rd(1)[OF k] rd(2)[OF pk[OF k]] show "H k = heap_v (p' k)"
      by (simp add: p'_def)
  qed
  have 5: "mset (map H [1..n]) = mset (map heap_v [1..n])"
    using bp 4 by (rule mset_upto_bij)
  have 6: "\<exists>h'. maxheapsort w n = Some h' \<and> (\<forall>k\<in>{1..n}. h' k = H k)"
    if w: "\<forall>k\<in>{1..n}. w k = heap_v k" for w
  proof -
    define f' where "f' = (\<lambda>k. the (w (int k)))"
    have sw: "{1..n} \<subseteq> dom w"
      using w sub by (auto simp: domIff subset_iff)
    have wv: "array_of w N f' = w"
      unfolding f'_def using sw by (intro array_of_self) (simp add: nN)
    have "\<forall>k\<in>{1..N}. f' k = f k"
      using w by (simp add: f'_def f_def nN)
    then have eq: "\<forall>k\<in>{1..N}. pheapsort (\<lambda>x. x) f' N k = g k"
      unfolding g_def using N2 by (rule pheapsort_int_cong)
    have "maxheapsort (array_of w N f') (int N) = Some (array_of w N (pheapsort (\<lambda>x. x) f' N))"
      using N2 by (rule maxheapsort_refine)
    then have "maxheapsort w n = Some (array_of w N (pheapsort (\<lambda>x. x) f' N))"
      by (simp add: wv nN)
    moreover have "\<forall>k\<in>{1..n}. array_of w N (pheapsort (\<lambda>x. x) f' N) k = H k"
    proof
      fix k assume k: "k \<in> {1..n}"
      then have "nat k \<in> {1..N}"
        by (auto simp: nN)
      with eq have "pheapsort (\<lambda>x. x) f' N (nat k) = g (nat k)"
        by blast
      with k show "array_of w N (pheapsort (\<lambda>x. x) f' N) k = H k"
        by (simp add: array_of_def H_def nN)
    qed
    ultimately show ?thesis by blast
  qed
  from run 1 2 3 4 5 6 bp show ?thesis
    by (intro exI[of _ H]) blast
qed

lemma maxheapsort_vi_correct:
  assumes n: "0 \<le> n" "2 * n \<le> INT_MAX"
    and sv: "{1..n} \<subseteq> dom heap_v" and si: "{1..n} \<subseteq> dom heap_i"
    and nn: "\<forall>k\<in>{1..n}. heap_v k \<noteq> Some DNaN"
  shows "\<exists>hv hi. maxheapsort_vi heap_v heap_i n = Some (hv, hi)
         \<and> dom hv = dom heap_v \<and> dom hi = dom heap_i
         \<and> (\<forall>k. k < 1 \<or> n < k \<longrightarrow> hv k = heap_v k \<and> hi k = heap_i k)
         \<and> sorted_wrt dle (map (\<lambda>k. the (hv k)) [1..n])
         \<and> (\<exists>p. bij_betw p {1..n} {1..n} \<and> (\<forall>k\<in>{1..n}. hv k = heap_v (p k) \<and> hi k = heap_i (p k)))
         \<and> (\<forall>wv wi. (\<forall>k\<in>{1..n}. wv k = heap_v k \<and> wi k = heap_i k) \<longrightarrow>
               (\<exists>hv' hi'. maxheapsort_vi wv wi n = Some (hv', hi')
                  \<and> (\<forall>k\<in>{1..n}. hv' k = hv k \<and> hi' k = hi k)))"
proof -
  define N where "N = nat n"
  have nN: "n = int N"
    using n(1) by (simp add: N_def)
  have N2: "2 * int N \<le> INT_MAX"
    using n(2) by (simp add: nN)
  define f where "f = (\<lambda>k. (the (heap_v (int k)), the (heap_i (int k))))"
  define g where "g = pheapsort vkey f N"
  define HV where "HV = array_of heap_v N (values_of g)"
  define HI where "HI = array_of heap_i N (indices_of g)"
  have vf: "values_of f = (\<lambda>k. the (heap_v (int k)))" "indices_of f = (\<lambda>k. the (heap_i (int k)))"
    by (simp_all add: f_def values_of_def indices_of_def fun_eq_iff)
  have hv: "array_of heap_v N (values_of f) = heap_v"
    unfolding vf using sv by (intro array_of_self) (simp add: nN)
  have hi: "array_of heap_i N (indices_of f) = heap_i"
    unfolding vf using si by (intro array_of_self) (simp add: nN)
  have rdf: "heap_v z = Some (fst (f (nat z)))" "heap_i z = Some (snd (f (nat z)))" if "z \<in> {1..n}" for z
    using that sv si by (auto simp: f_def subset_iff domIff)
  have fn: "\<forall>k\<in>{1..N}. fst (f k) \<noteq> DNaN"
  proof
    fix k assume k: "k \<in> {1..N}"
    then have z: "int k \<in> {1..n}" by (auto simp: nN)
    from rdf(1)[OF z] nn z show "fst (f k) \<noteq> DNaN" by auto
  qed
  have "maxheapsort_vi (array_of heap_v N (values_of f)) (array_of heap_i N (indices_of f)) (int N) = Some (HV, HI)"
    unfolding HV_def HI_def g_def using N2 fn by (rule maxheapsort_vi_refine)
  then have run: "maxheapsort_vi heap_v heap_i n = Some (HV, HI)"
    by (simp add: hv hi nN)
  from pheapsort_correct[of N vkey f]
  have ord: "\<And>a b. 1 \<le> a \<Longrightarrow> a \<le> b \<Longrightarrow> b \<le> N \<Longrightarrow> vkey (g a) \<le> vkey (g b)"
    and perm: "perm_of f g N"
    unfolding g_def by blast+
  have gn: "\<forall>k\<in>{1..N}. fst (g k) \<noteq> DNaN"
    using perm fn by (rule perm_of_no_nan)
  have rd: "HV z = Some (fst (g (nat z)))" "HI z = Some (snd (g (nat z)))" if "z \<in> {1..n}" for z
    using that by (auto simp: HV_def HI_def array_of_def values_of_def indices_of_def nN)
  have 1: "dom HV = dom heap_v" "dom HI = dom heap_i"
    using sv si by (auto simp: HV_def HI_def dom_array_of nN)
  have 2: "\<forall>k. k < 1 \<or> n < k \<longrightarrow> HV k = heap_v k \<and> HI k = heap_i k"
    by (auto simp: HV_def HI_def array_of_def nN)
  have 3: "sorted_wrt dle (map (\<lambda>k. the (HV k)) [1..n])"
  proof (rule sorted_wrt_upto)
    fix a b :: int assume ab: "1 \<le> a" "a < b" "b \<le> n"
    then have "vkey (g (nat a)) \<le> vkey (g (nat b))"
      by (intro ord) (auto simp: nN)
    moreover have "nat a \<in> {1..N}" "nat b \<in> {1..N}"
      using ab by (auto simp: nN)
    with gn have "fst (g (nat a)) \<noteq> DNaN" "fst (g (nat b)) \<noteq> DNaN"
      by blast+
    ultimately have "dle (fst (g (nat a))) (fst (g (nat b)))"
      by (simp add: dle_drank vkey_def)
    with ab show "dle (the (HV a)) (the (HV b))"
      by (simp add: rd)
  qed
  from perm obtain p where p: "bij_betw p {1..N} {1..N}" "\<forall>k\<in>{1..N}. g k = f (p k)"
    unfolding perm_of_def by blast
  define p' where "p' = (\<lambda>z. int (p (nat z)))"
  have bp: "bij_betw p' {1..n} {1..n}"
    unfolding p'_def nN using p(1) by (rule bij_betw_int)
  have pk: "p' z \<in> {1..n}" if "z \<in> {1..n}" for z
    using bp that by (rule bij_betw_apply)
  have 4: "\<forall>k\<in>{1..n}. HV k = heap_v (p' k) \<and> HI k = heap_i (p' k)"
  proof
    fix k assume k: "k \<in> {1..n}"
    then have "nat k \<in> {1..N}"
      by (auto simp: nN)
    with p(2) have "g (nat k) = f (p (nat k))"
      by blast
    with rd[OF k] rdf[OF pk[OF k]] show "HV k = heap_v (p' k) \<and> HI k = heap_i (p' k)"
      by (simp add: p'_def)
  qed
  have 5: "\<exists>hv' hi'. maxheapsort_vi wv wi n = Some (hv', hi')
        \<and> (\<forall>k\<in>{1..n}. hv' k = HV k \<and> hi' k = HI k)"
    if w: "\<forall>k\<in>{1..n}. wv k = heap_v k \<and> wi k = heap_i k" for wv wi
  proof -
    define f' where "f' = (\<lambda>k. (the (wv (int k)), the (wi (int k))))"
    have vf': "values_of f' = (\<lambda>k. the (wv (int k)))" "indices_of f' = (\<lambda>k. the (wi (int k)))"
      by (simp_all add: f'_def values_of_def indices_of_def fun_eq_iff)
    have sw: "{1..n} \<subseteq> dom wv" "{1..n} \<subseteq> dom wi"
      using w sv si by (auto simp: domIff subset_iff)
    have wv: "array_of wv N (values_of f') = wv"
      unfolding vf' using sw by (intro array_of_self) (simp add: nN)
    have wi: "array_of wi N (indices_of f') = wi"
      unfolding vf' using sw by (intro array_of_self) (simp add: nN)
    have ff: "\<forall>k\<in>{1..N}. f k = f' k"
      using w by (simp add: f'_def f_def nN)
    then have eq: "\<forall>k\<in>{1..N}. g k = pheapsort vkey f' N k"
      unfolding g_def using fn N2 by (rule pheapsort_vi_cong)
    have fn': "\<forall>k\<in>{1..N}. fst (f' k) \<noteq> DNaN"
      using ff fn by auto
    have "maxheapsort_vi (array_of wv N (values_of f')) (array_of wi N (indices_of f')) (int N) =
        Some (array_of wv N (values_of (pheapsort vkey f' N)), array_of wi N (indices_of (pheapsort vkey f' N)))"
      using N2 fn' by (rule maxheapsort_vi_refine)
    then have "maxheapsort_vi wv wi n =
        Some (array_of wv N (values_of (pheapsort vkey f' N)), array_of wi N (indices_of (pheapsort vkey f' N)))"
      by (simp add: wv wi nN)
    moreover have "\<forall>k\<in>{1..n}. array_of wv N (values_of (pheapsort vkey f' N)) k = HV k
        \<and> array_of wi N (indices_of (pheapsort vkey f' N)) k = HI k"
    proof
      fix k assume k: "k \<in> {1..n}"
      then have "nat k \<in> {1..N}"
        by (auto simp: nN)
      with eq have "g (nat k) = pheapsort vkey f' N (nat k)"
        by blast
      with k show "array_of wv N (values_of (pheapsort vkey f' N)) k = HV k
        \<and> array_of wi N (indices_of (pheapsort vkey f' N)) k = HI k"
        by (simp add: array_of_def HV_def HI_def values_of_def indices_of_def nN)
    qed
    ultimately show ?thesis by blast
  qed
  from run 1 2 3 4 5 bp show ?thesis
    by (intro exI[of _ HV] exI[of _ HI]) blast
qed

text \<open>
  C1, as amended. Let \<open>0 \<le> n\<close> with \<open>2 n\<close> an \<^verbatim>\<open>int\<close>, and let the positions \<open>1..n\<close> of
  \<^verbatim>\<open>heap_v\<close> hold values. Then \<^verbatim>\<open>maxheapsort(heap_v, n)\<close> returns; the array it leaves holds
  values at the same positions as before and the same value at every position outside
  \<open>1..n\<close>, position 0 among them; its positions \<open>1..n\<close> are in non-decreasing order and are a
  rearrangement of what they held (the same multiset); and the result on \<open>1..n\<close> is the same
  for every array that agrees with \<^verbatim>\<open>heap_v\<close> on \<open>1..n\<close>, whatever it holds elsewhere and
  whether or not it holds anything at position 0: no position outside \<open>1..n\<close> is read or
  written. For the value-index overload, let the positions \<open>1..n\<close> of both arrays hold
  values, none of the values of \<^verbatim>\<open>heap_v[1..n]\<close> a NaN. Then
  \<^verbatim>\<open>maxheapsort(heap_v, heap_i, n)\<close> returns, with the same frame and independence, the
  values of \<open>1..n\<close> in non-decreasing order, and one rearrangement of \<open>1..n\<close> applied to both
  arrays.
\<close>

theorem maxheapsort_sorts:
  "(0 \<le> n \<and> 2 * n \<le> INT_MAX \<and> {1..n} \<subseteq> dom heap_v \<longrightarrow>
      (\<exists>h. maxheapsort heap_v n = Some h
         \<and> dom h = dom heap_v \<and> (\<forall>k. k < 1 \<or> n < k \<longrightarrow> h k = heap_v k)
         \<and> sorted (map (\<lambda>k. the (h k)) [1..n])
         \<and> (\<exists>p. bij_betw p {1..n} {1..n} \<and> (\<forall>k\<in>{1..n}. h k = heap_v (p k)))
         \<and> mset (map h [1..n]) = mset (map heap_v [1..n])
         \<and> (\<forall>w. (\<forall>k\<in>{1..n}. w k = heap_v k) \<longrightarrow>
               (\<exists>h'. maxheapsort w n = Some h' \<and> (\<forall>k\<in>{1..n}. h' k = h k)))))
   \<and> (0 \<le> n \<and> 2 * n \<le> INT_MAX \<and> {1..n} \<subseteq> dom heap_d \<and> {1..n} \<subseteq> dom heap_i
        \<and> (\<forall>k\<in>{1..n}. heap_d k \<noteq> Some DNaN) \<longrightarrow>
      (\<exists>hv hi. maxheapsort_vi heap_d heap_i n = Some (hv, hi)
         \<and> dom hv = dom heap_d \<and> dom hi = dom heap_i
         \<and> (\<forall>k. k < 1 \<or> n < k \<longrightarrow> hv k = heap_d k \<and> hi k = heap_i k)
         \<and> sorted_wrt dle (map (\<lambda>k. the (hv k)) [1..n])
         \<and> (\<exists>p. bij_betw p {1..n} {1..n} \<and> (\<forall>k\<in>{1..n}. hv k = heap_d (p k) \<and> hi k = heap_i (p k)))
         \<and> (\<forall>wv wi. (\<forall>k\<in>{1..n}. wv k = heap_d k \<and> wi k = heap_i k) \<longrightarrow>
               (\<exists>hv' hi'. maxheapsort_vi wv wi n = Some (hv', hi')
                  \<and> (\<forall>k\<in>{1..n}. hv' k = hv k \<and> hi' k = hi k)))))"
proof (intro conjI impI)
  assume "0 \<le> n \<and> 2 * n \<le> INT_MAX \<and> {1..n} \<subseteq> dom heap_v"
  then have a: "0 \<le> n" "2 * n \<le> INT_MAX" "{1..n} \<subseteq> dom heap_v"
    by simp_all
  show "\<exists>h. maxheapsort heap_v n = Some h
         \<and> dom h = dom heap_v \<and> (\<forall>k. k < 1 \<or> n < k \<longrightarrow> h k = heap_v k)
         \<and> sorted (map (\<lambda>k. the (h k)) [1..n])
         \<and> (\<exists>p. bij_betw p {1..n} {1..n} \<and> (\<forall>k\<in>{1..n}. h k = heap_v (p k)))
         \<and> mset (map h [1..n]) = mset (map heap_v [1..n])
         \<and> (\<forall>w. (\<forall>k\<in>{1..n}. w k = heap_v k) \<longrightarrow>
               (\<exists>h'. maxheapsort w n = Some h' \<and> (\<forall>k\<in>{1..n}. h' k = h k)))"
    using a by (rule maxheapsort_int_correct)
next
  assume "0 \<le> n \<and> 2 * n \<le> INT_MAX \<and> {1..n} \<subseteq> dom heap_d \<and> {1..n} \<subseteq> dom heap_i
        \<and> (\<forall>k\<in>{1..n}. heap_d k \<noteq> Some DNaN)"
  then have a: "0 \<le> n" "2 * n \<le> INT_MAX" "{1..n} \<subseteq> dom heap_d" "{1..n} \<subseteq> dom heap_i"
    "\<forall>k\<in>{1..n}. heap_d k \<noteq> Some DNaN"
    by simp_all
  show "\<exists>hv hi. maxheapsort_vi heap_d heap_i n = Some (hv, hi)
         \<and> dom hv = dom heap_d \<and> dom hi = dom heap_i
         \<and> (\<forall>k. k < 1 \<or> n < k \<longrightarrow> hv k = heap_d k \<and> hi k = heap_i k)
         \<and> sorted_wrt dle (map (\<lambda>k. the (hv k)) [1..n])
         \<and> (\<exists>p. bij_betw p {1..n} {1..n} \<and> (\<forall>k\<in>{1..n}. hv k = heap_d (p k) \<and> hi k = heap_i (p k)))
         \<and> (\<forall>wv wi. (\<forall>k\<in>{1..n}. wv k = heap_d k \<and> wi k = heap_i k) \<longrightarrow>
               (\<exists>hv' hi'. maxheapsort_vi wv wi n = Some (hv', hi')
                  \<and> (\<forall>k\<in>{1..n}. hv' k = hv k \<and> hi' k = hi k)))"
    using a by (rule maxheapsort_vi_correct)
qed

text \<open>
  The theorem at the \<^verbatim>\<open>int\<close> array \<open>{_, 3, 1, 2}\<close> and at the values \<open>{_, 2.5, -\<infinity>, 1}\<close> with
  the indices \<open>{_, 10, 20, 30}\<close>; position 0 holds no value in any of them.
\<close>

theorem maxheapsort_sorts_witness:
  "(0::int) \<le> 3 \<and> 2 * 3 \<le> INT_MAX \<and> {1..3} \<subseteq> dom heap3 \<and> 0 \<notin> dom heap3
   \<and> maxheapsort heap3 3 = Some [1 \<mapsto> 1, 2 \<mapsto> 2, 3 \<mapsto> 3]
   \<and> {1..3} \<subseteq> dom values3 \<and> {1..3} \<subseteq> dom indices3
   \<and> values3 1 \<noteq> Some DNaN \<and> values3 2 \<noteq> Some DNaN \<and> values3 3 \<noteq> Some DNaN
   \<and> maxheapsort_vi values3 indices3 3 =
       Some ([1 \<mapsto> DNegInf, 2 \<mapsto> DFin 1, 3 \<mapsto> DFin (5 / 2)], [1 \<mapsto> 20, 2 \<mapsto> 30, 3 \<mapsto> 10])"
proof -
  have r: "{1..3::int} = {1, 2, 3}"
    by auto
  have a: "{1..3} \<subseteq> dom heap3" "0 \<notin> dom heap3" "{1..3} \<subseteq> dom values3" "{1..3} \<subseteq> dom indices3"
    by (simp_all add: r heap3_def values3_def indices3_def)
  have b: "values3 1 \<noteq> Some DNaN" "values3 2 \<noteq> Some DNaN" "values3 3 \<noteq> Some DNaN"
    by (simp_all add: values3_def)
  then have b': "\<forall>k\<in>{1..3}. values3 k \<noteq> Some DNaN"
    by (simp add: r)
  have c: "(0::int) \<le> 3" "2 * 3 \<le> INT_MAX"
    by (simp_all add: INT_MAX_def)
  note T = maxheapsort_sorts[of 3 heap3 values3 indices3]
  from c a(1) have "0 \<le> (3::int) \<and> 2 * 3 \<le> INT_MAX \<and> {1..3} \<subseteq> dom heap3"
    by (intro conjI)
  from T[THEN conjunct1, THEN mp, OF this]
  obtain h where run1: "maxheapsort heap3 3 = Some h"
    by (elim exE conjE)
  from c a(3,4) b' have "0 \<le> (3::int) \<and> 2 * 3 \<le> INT_MAX \<and> {1..3} \<subseteq> dom values3 \<and> {1..3} \<subseteq> dom indices3
      \<and> (\<forall>k\<in>{1..3}. values3 k \<noteq> Some DNaN)"
    by (intro conjI)
  from T[THEN conjunct2, THEN mp, OF this]
  obtain hv hi where run2: "maxheapsort_vi values3 indices3 3 = Some (hv, hi)"
    by (elim exE conjE)
  note run = run1 run2
  have "maxheapsort heap3 3 = Some [1 \<mapsto> 1, 2 \<mapsto> 2, 3 \<mapsto> 3]"
    by (simp add: maxheapsort_def build_maxheap_def max_heapsort_def heap3_def
        build_maxheap_from.simps max_heapsort_from.simps max_heapify_def
        max_heapify_loop.simps store_def in_int_def div2_def INT_MAX_def INT_MIN_def)
      (auto simp: fun_eq_iff)
  moreover have "maxheapsort_vi values3 indices3 3 =
       Some ([1 \<mapsto> DNegInf, 2 \<mapsto> DFin 1, 3 \<mapsto> DFin (5 / 2)], [1 \<mapsto> 20, 2 \<mapsto> 30, 3 \<mapsto> 10])"
    by (simp add: maxheapsort_vi_def build_maxheap_vi_def max_heapsort_vi_def values3_def indices3_def
        build_maxheap_vi_from.simps max_heapsort_vi_from.simps max_heapify_vi_def
        max_heapify_vi_loop.simps store_def dgt_def dle_def in_int_def div2_def INT_MAX_def INT_MIN_def)
      (auto simp: fun_eq_iff)
  ultimately show ?thesis
    using a b c run by simp
qed

text \<open>
  The claim as it is written fails twice. On the values \<open>{_, NaN, 1}\<close> with the indices
  \<open>{_, 10, 20}\<close> and \<open>n = 2\<close>, both arrays holding values at the positions 1 and 2, the
  value-index \<^verbatim>\<open>maxheapsort\<close> does not return. On \<open>2 ^ 30\<close> zeros, \<open>n = 1073741824\<close>, the
  first call of \<^verbatim>\<open>max_heapify\<close>, with \<open>i = n / 2\<close>, moves \<^verbatim>\<open>heap_v[n]\<close> up and computes
  \<^verbatim>\<open>j = 2 * j\<close> for \<open>j = n\<close>, which is not an \<^verbatim>\<open>int\<close>.
\<close>

theorem maxheapsort_no_result:
  "{1..2} \<subseteq> dom nan_v \<and> {1..2} \<subseteq> dom nan_i \<and> nan_v 1 = Some DNaN
   \<and> maxheapsort_vi nan_v nan_i 2 = None
   \<and> {1..1073741824} \<subseteq> dom zeros \<and> maxheapsort zeros 1073741824 = None"
proof -
  have r: "{1..2::int} = {1, 2}"
    by auto
  have 1: "{1..2} \<subseteq> dom nan_v \<and> {1..2} \<subseteq> dom nan_i \<and> nan_v 1 = Some DNaN"
    by (simp add: r nan_v_def nan_i_def)
  have 2: "{1..1073741824} \<subseteq> dom zeros"
    by (auto simp: zeros_def domIff)
  have "max_heapify_loop 0 1073741824 1073741824 zeros = None"
    by (subst max_heapify_loop.simps)
      (simp add: zeros_def store_def div2_def in_int_def INT_MAX_def INT_MIN_def)
  then have "max_heapify zeros 536870912 1073741824 = None"
    by (simp add: max_heapify_def zeros_def in_int_def INT_MAX_def INT_MIN_def)
  then have 3: "maxheapsort zeros 1073741824 = None"
    by (simp add: maxheapsort_def build_maxheap_def div2_def build_maxheap_from.simps)
  from 1 2 3 maxheapsort_vi_nan show ?thesis
    by simp
qed

section \<open>Properties of FindFeasibility.cpp\<close>

lemma isEqualityProblem_rows_iff:
  "isEqualityProblem_rows lp rows \<longleftrightarrow> (\<forall>row\<in>set rows. \<not> dne (rowLower lp ! row) (rowUpper lp ! row))"
  by (induction rows) auto

lemma isEqualityProblem_iff:
  "isEqualityProblem lp \<longleftrightarrow> (\<forall>i<nat (numRow lp). \<not> dne (rowLower lp ! i) (rowUpper lp ! i))"
  by (auto simp: isEqualityProblem_def isEqualityProblem_rows_iff)

text \<open>
  C4. When some row \<open>i\<close> has \<^verbatim>\<open>rowLower_[i] != rowUpper_[i]\<close>, \<^verbatim>\<open>runFeasibility\<close> returns
  \<^verbatim>\<open>NotImplemented\<close>, has not called \<^verbatim>\<open>minimize_by_component\<close> and leaves the solution as it
  was; when no row has, and the type is \<^verbatim>\<open>kExact\<close>, it returns \<^verbatim>\<open>NotImplemented\<close> as well, again
  without a call of \<^verbatim>\<open>minimize_by_component\<close>.
\<close>

theorem runFeasibility_NotImplemented:
  "((\<exists>i<nat (numRow lp). dne (rowLower lp ! i) (rowUpper lp ! i)) \<longrightarrow>
      runFeasibility consistent residual final lp solution type = (NotImplemented, solution, 0))
   \<and> ((\<forall>i<nat (numRow lp). \<not> dne (rowLower lp ! i) (rowUpper lp ! i)) \<longrightarrow>
      fst (runFeasibility consistent residual final lp solution kExact) = NotImplemented
      \<and> snd (snd (runFeasibility consistent residual final lp solution kExact)) = 0)"
proof (intro conjI impI)
  assume "\<exists>i<nat (numRow lp). dne (rowLower lp ! i) (rowUpper lp ! i)"
  then have "\<not> isEqualityProblem lp"
    by (simp add: isEqualityProblem_iff)
  then show "runFeasibility consistent residual final lp solution type = (NotImplemented, solution, 0)"
    by (simp add: runFeasibility_def)
next
  assume "\<forall>i<nat (numRow lp). \<not> dne (rowLower lp ! i) (rowUpper lp ! i)"
  then have eq: "isEqualityProblem lp"
    by (simp add: isEqualityProblem_iff)
  obtain st s1 mu la where i: "initialize consistent lp solution DNaN [] = (st, s1, mu, la)"
    by (cases "initialize consistent lp solution DNaN []") auto
  from eq i show "fst (runFeasibility consistent residual final lp solution kExact) = NotImplemented"
    by (simp add: runFeasibility_def)
  from eq i show "snd (snd (runFeasibility consistent residual final lp solution kExact)) = 0"
    by (simp add: runFeasibility_def)
qed

lemma less_2_cases_nat: "(i::nat) < 2 \<longleftrightarrow> i = 0 \<or> i = 1"
  by auto

theorem runFeasibility_NotImplemented_witness:
  "dne (rowLower lp_rows_differ ! 1) (rowUpper lp_rows_differ ! 1)
   \<and> runFeasibility False (\<lambda>k. DFin 1) solution_empty lp_rows_differ solution_empty kComponentWise
       = (NotImplemented, solution_empty, 0)
   \<and> numRow lp_rows_equal = 2
   \<and> \<not> dne (rowLower lp_rows_equal ! 0) (rowUpper lp_rows_equal ! 0)
   \<and> \<not> dne (rowLower lp_rows_equal ! 1) (rowUpper lp_rows_equal ! 1)
   \<and> fst (runFeasibility False (\<lambda>k. DFin 1) solution_empty lp_rows_equal solution_empty kExact)
       = NotImplemented
   \<and> snd (snd (runFeasibility False (\<lambda>k. DFin 1) solution_empty lp_rows_equal solution_empty kExact))
       = 0"
proof -
  have d: "\<exists>i<nat (numRow lp_rows_differ). dne (rowLower lp_rows_differ ! i) (rowUpper lp_rows_differ ! i)"
    by (rule exI[of _ 1]) (simp add: lp_rows_differ_def dne_def)
  have e: "\<forall>i<nat (numRow lp_rows_equal). \<not> dne (rowLower lp_rows_equal ! i) (rowUpper lp_rows_equal ! i)"
    by (simp add: lp_rows_equal_def dne_def less_2_cases_nat)
  have c: "dne (rowLower lp_rows_differ ! 1) (rowUpper lp_rows_differ ! 1)"
    "numRow lp_rows_equal = 2"
    "\<not> dne (rowLower lp_rows_equal ! 0) (rowUpper lp_rows_equal ! 0)"
    "\<not> dne (rowLower lp_rows_equal ! 1) (rowUpper lp_rows_equal ! 1)"
    by (simp_all add: lp_rows_differ_def lp_rows_equal_def dne_def)
  from c d e
    runFeasibility_NotImplemented[of lp_rows_differ False "\<lambda>k. DFin 1" solution_empty solution_empty kComponentWise]
    runFeasibility_NotImplemented[of lp_rows_equal False "\<lambda>k. DFin 1" solution_empty solution_empty kExact]
  show ?thesis by blast
qed

lemma no_error_branch:
  "l \<noteq> DNaN \<Longrightarrow> u \<noteq> DNaN \<Longrightarrow> \<not> (dle l (DFin 0) \<and> dge u (DFin 0)) \<Longrightarrow> \<not> dgt l (DFin 0)
     \<Longrightarrow> dlt u (DFin 0)"
  by (simp add: dle_def dge_def dgt_def)

lemma initialize_cols_fold:
  "\<forall>c\<in>set cols. colLower lp ! c \<noteq> DNaN \<and> colUpper lp ! c \<noteq> DNaN \<Longrightarrow>
   initialize_cols lp cols cv =
     (OK, fold (\<lambda>c v. v[c := starting_value (colLower lp ! c) (colUpper lp ! c)]) cols cv)"
proof (induction cols arbitrary: cv)
  case Nil
  then show ?case by simp
next
  case (Cons c cols)
  from Cons.prems have n: "colLower lp ! c \<noteq> DNaN" "colUpper lp ! c \<noteq> DNaN"
    and rest: "\<forall>c\<in>set cols. colLower lp ! c \<noteq> DNaN \<and> colUpper lp ! c \<noteq> DNaN"
    by simp_all
  show ?case
    using no_error_branch[OF n] Cons.IH[OF rest]
    by (auto simp: starting_value_def)
qed

lemma fold_update_length:
  "length (fold (\<lambda>c v. v[c := f c]) cols v) = length v"
  by (induction cols arbitrary: v) simp_all

lemma fold_update_nth:
  "\<forall>c\<in>set cols. c < length v \<Longrightarrow>
   fold (\<lambda>c v. v[c := f c]) cols v ! j = (if j \<in> set cols then f j else v ! j)"
proof (induction cols arbitrary: v)
  case Nil
  then show ?case by simp
next
  case (Cons c cols)
  then show ?case
    by (cases "c \<in> set cols") (auto simp: nth_list_update)
qed

text \<open>
  C5, as amended. For an LP whose column bounds hold no NaN, \<^verbatim>\<open>initialize\<close> returns
  \<^verbatim>\<open>HighsStatus::OK\<close> (the error branch is not taken), sets \<^verbatim>\<open>col_value[j]\<close> to 0 if
  \<^verbatim>\<open>colLower_[j] <= 0 <= colUpper_[j]\<close>, to \<^verbatim>\<open>colLower_[j]\<close> if \<^verbatim>\<open>colLower_[j] > 0\<close>, and to
  \<^verbatim>\<open>colUpper_[j]\<close> if \<^verbatim>\<open>colUpper_[j] < 0\<close> and not \<^verbatim>\<open>colLower_[j] > 0\<close>, sets \<^verbatim>\<open>mu\<close> to the starting
  value and \<^verbatim>\<open>lambda\<close> to the zero vector of length \<^verbatim>\<open>numRow_\<close>. The LP is well formed: its
  dimensions are not negative and its bound vectors have \<^verbatim>\<open>numCol_\<close> entries; and a solution
  that \<^verbatim>\<open>isSolutionConsistent\<close> accepts has \<^verbatim>\<open>numCol_\<close> column values.
\<close>

theorem initialize_OK:
  assumes "0 \<le> numCol lp" and "0 \<le> numRow lp"
    and "length (colLower lp) = nat (numCol lp)" and "length (colUpper lp) = nat (numCol lp)"
    and "consistent \<longrightarrow> length (col_value solution) = nat (numCol lp)"
    and "DNaN \<notin> set (colLower lp)" and "DNaN \<notin> set (colUpper lp)"
  shows "\<exists>solution'.
           initialize consistent lp solution mu lambda =
             (OK, solution', chooseStartingMu lp, replicate (nat (numRow lp)) (DFin 0))
           \<and> length (col_value solution') = nat (numCol lp)
           \<and> (\<forall>j<nat (numCol lp).
                 (dle (colLower lp ! j) (DFin 0) \<and> dle (DFin 0) (colUpper lp ! j)
                    \<longrightarrow> col_value solution' ! j = DFin 0)
               \<and> (dgt (colLower lp ! j) (DFin 0) \<longrightarrow> col_value solution' ! j = colLower lp ! j)
               \<and> (dlt (colUpper lp ! j) (DFin 0) \<and> \<not> dgt (colLower lp ! j) (DFin 0)
                    \<longrightarrow> col_value solution' ! j = colUpper lp ! j))"
proof -
  let ?n = "nat (numCol lp)"
  define solution1 where
    "solution1 = (if \<not> consistent
       then solution\<lparr>col_value := replicate ?n (DFin 0), col_dual := [], row_value := [],
                      row_dual := []\<rparr>
       else solution)"
  define f where "f = (\<lambda>c. starting_value (colLower lp ! c) (colUpper lp ! c))"
  define cv where "cv = fold (\<lambda>c v. v[c := f c]) [0..<?n] (col_value solution1)"
  have len1: "length (col_value solution1) = ?n"
    using assms(5) by (simp add: solution1_def)
  have nonan: "\<forall>c\<in>set [0..<?n]. colLower lp ! c \<noteq> DNaN \<and> colUpper lp ! c \<noteq> DNaN"
    using assms(3,4,6,7) by (auto simp: in_set_conv_nth)
  have cols: "initialize_cols lp [0..<?n] (col_value solution1) = (OK, cv)"
    unfolding cv_def f_def by (rule initialize_cols_fold[OF nonan])
  have init: "initialize consistent lp solution mu lambda =
      (OK, solution1\<lparr>col_value := cv\<rparr>, chooseStartingMu lp, replicate (nat (numRow lp)) (DFin 0))"
    unfolding initialize_def solution1_def[symmetric] Let_def using cols by simp
  have lencv: "length cv = ?n"
    by (simp add: cv_def fold_update_length len1)
  have nth: "cv ! j = f j" if "j < ?n" for j
    using that len1 by (simp add: cv_def fold_update_nth)
  have vals: "(dle (colLower lp ! j) (DFin 0) \<and> dle (DFin 0) (colUpper lp ! j) \<longrightarrow> cv ! j = DFin 0)
      \<and> (dgt (colLower lp ! j) (DFin 0) \<longrightarrow> cv ! j = colLower lp ! j)
      \<and> (dlt (colUpper lp ! j) (DFin 0) \<and> \<not> dgt (colLower lp ! j) (DFin 0) \<longrightarrow> cv ! j = colUpper lp ! j)"
    if "j < ?n" for j
    using nth[OF that] by (auto simp: f_def starting_value_def dge_def dle_def dgt_def)
  from init lencv vals show ?thesis
    by (intro exI[of _ "solution1\<lparr>col_value := cv\<rparr>"]) simp
qed

theorem initialize_OK_witness:
  "initialize False lp_three_cols solution_empty DNaN [] =
     (OK, solution_empty\<lparr>col_value := [DFin 0, DFin 2, DFin (-3)]\<rparr>, DFin 10, [DFin 0, DFin 0])"
proof -
  have "\<exists>solution'.
           initialize False lp_three_cols solution_empty DNaN [] =
             (OK, solution', chooseStartingMu lp_three_cols,
              replicate (nat (numRow lp_three_cols)) (DFin 0))
           \<and> length (col_value solution') = nat (numCol lp_three_cols)
           \<and> (\<forall>j<nat (numCol lp_three_cols).
                 (dle (colLower lp_three_cols ! j) (DFin 0) \<and> dle (DFin 0) (colUpper lp_three_cols ! j)
                    \<longrightarrow> col_value solution' ! j = DFin 0)
               \<and> (dgt (colLower lp_three_cols ! j) (DFin 0)
                    \<longrightarrow> col_value solution' ! j = colLower lp_three_cols ! j)
               \<and> (dlt (colUpper lp_three_cols ! j) (DFin 0) \<and> \<not> dgt (colLower lp_three_cols ! j) (DFin 0)
                    \<longrightarrow> col_value solution' ! j = colUpper lp_three_cols ! j))"
    by (rule initialize_OK) (simp_all add: lp_three_cols_def)
  then show ?thesis
    by (auto simp: initialize_def lp_three_cols_def solution_empty_def chooseStartingMu_def
        dle_def dge_def dgt_def Let_def upt_rec numeral_eq_Suc)
qed

text \<open>
  The claim as it is written fails where the bounds cross: with \<^verbatim>\<open>colLower_[0] = 1\<close> and
  \<^verbatim>\<open>colUpper_[0] = -1\<close> there is no NaN and \<^verbatim>\<open>colUpper_[0] < 0\<close>, and the column is set to the
  lower bound 1, not to the upper bound.
\<close>

theorem initialize_crossed_bounds:
  "DNaN \<notin> set (colLower lp_crossed) \<and> DNaN \<notin> set (colUpper lp_crossed)
   \<and> dlt (colUpper lp_crossed ! 0) (DFin 0)
   \<and> initialize False lp_crossed solution_empty DNaN [] =
       (OK, solution_empty\<lparr>col_value := [DFin 1]\<rparr>, DFin 10, [])
   \<and> colUpper lp_crossed ! 0 = DFin (-1)"
  by (simp add: initialize_def lp_crossed_def solution_empty_def chooseStartingMu_def
      dle_def dge_def dgt_def Let_def)

section \<open>Properties of \<^verbatim>\<open>increasing_set_ok\<close>\<close>

lemma increasing_set_ok_loop_iff:
  "increasing_set_ok_loop cb up es prev \<longleftrightarrow>
     sorted (prev # es) \<and> (cb \<longrightarrow> (\<forall>e\<in>set es. e \<le> up))"
proof (induction es arbitrary: prev)
  case Nil
  then show ?case by simp
next
  case (Cons e es)
  show ?case
    by (simp add: Cons.IH) (use order_trans in fastforce)
qed

lemma dlt_trans_prev:
  "e \<noteq> DNaN \<Longrightarrow> x \<noteq> DNaN \<Longrightarrow> \<not> dlt e prev \<Longrightarrow> \<not> dlt x e \<Longrightarrow> \<not> dlt x prev"
  by (cases e; cases x; cases prev) auto

lemma dle_iff_not_dlt: "a \<noteq> DNaN \<Longrightarrow> b \<noteq> DNaN \<Longrightarrow> dle a b \<longleftrightarrow> \<not> dlt b a"
  by (simp add: dle_def)

lemma increasing_set_ok_double_loop_iff:
  "DNaN \<notin> set es \<Longrightarrow>
   increasing_set_ok_double_loop cb up es prev \<longleftrightarrow>
     (\<forall>e\<in>set es. \<not> dlt e prev) \<and> sorted_wrt dle es \<and> (cb \<longrightarrow> (\<forall>e\<in>set es. \<not> dgt e up))"
proof (induction es arbitrary: prev)
  case Nil
  then show ?case by simp
next
  case (Cons e es)
  from Cons.prems have e: "e \<noteq> DNaN" and es: "DNaN \<notin> set es"
    by auto
  have tr: "\<not> dlt x prev" if "\<not> dlt e prev" "\<not> dlt x e" "x \<in> set es" for x
    using dlt_trans_prev[OF e _ that(1,2)] that(3) es by auto
  have le: "dle e x \<longleftrightarrow> \<not> dlt x e" if "x \<in> set es" for x
    using dle_iff_not_dlt[OF e, of x] that es by auto
  show ?case
    using tr le by (auto simp: Cons.IH[OF es])
qed

text \<open>
  C6, as amended. For both overloads \<^verbatim>\<open>increasing_set_ok(set, k, lo, hi)\<close> is false when
  \<^verbatim>\<open>set\<close> is null; for an array that holds \<open>k\<close> entries it is true if and only if \<open>k \<ge> 0\<close>,
  the entries \<^verbatim>\<open>set[0..k-1]\<close> are non-decreasing, every entry lies in \<open>[lo, hi]\<close> when
  \<open>lo \<le> hi\<close>, and, when not \<open>lo \<le> hi\<close>, the first entry is not below the initial predecessor
  \<^verbatim>\<open>-HIGHS_CONST_I_INF\<close> (\<^verbatim>\<open>-HIGHS_CONST_INF\<close> in the \<^verbatim>\<open>double\<close> overload). For the \<^verbatim>\<open>double\<close>
  overload the entries read are not NaN.
\<close>

theorem increasing_set_ok_iff:
  "\<not> increasing_set_ok I_INF None k lo hi
   \<and> (nat k \<le> length xs \<longrightarrow>
        (increasing_set_ok I_INF (Some xs) k lo hi \<longleftrightarrow>
           0 \<le> k \<and> sorted (take (nat k) xs)
           \<and> (lo \<le> hi \<longrightarrow> (\<forall>e\<in>set (take (nat k) xs). lo \<le> e \<and> e \<le> hi))
           \<and> (\<not> lo \<le> hi \<and> 0 < k \<longrightarrow> - I_INF \<le> xs ! 0)))
   \<and> \<not> increasing_set_ok_double D_INF None k dlo dhi
   \<and> (nat k \<le> length ds \<and> DNaN \<notin> set (take (nat k) ds) \<longrightarrow>
        (increasing_set_ok_double D_INF (Some ds) k dlo dhi \<longleftrightarrow>
           0 \<le> k \<and> sorted_wrt dle (take (nat k) ds)
           \<and> (dle dlo dhi \<longrightarrow> (\<forall>e\<in>set (take (nat k) ds). dle dlo e \<and> dle e dhi))
           \<and> (\<not> dle dlo dhi \<and> 0 < k \<longrightarrow> \<not> dlt (ds ! 0) (dneg D_INF))))"
proof (intro conjI impI)
  show "\<not> increasing_set_ok I_INF None k lo hi"
    by (simp add: increasing_set_ok_def)
  show "\<not> increasing_set_ok_double D_INF None k dlo dhi"
    by (simp add: increasing_set_ok_double_def)
next
  assume len: "nat k \<le> length xs"
  show "increasing_set_ok I_INF (Some xs) k lo hi \<longleftrightarrow>
           0 \<le> k \<and> sorted (take (nat k) xs)
           \<and> (lo \<le> hi \<longrightarrow> (\<forall>e\<in>set (take (nat k) xs). lo \<le> e \<and> e \<le> hi))
           \<and> (\<not> lo \<le> hi \<and> 0 < k \<longrightarrow> - I_INF \<le> xs ! 0)"
  proof (cases "0 < k")
    case False
    then show ?thesis
      by (cases "k < 0") (simp_all add: increasing_set_ok_def)
  next
    case True
    with len obtain y ys where t: "take (nat k) xs = y # ys" and y: "y = xs ! 0"
      by (cases xs) (auto simp: take_Cons' split: if_splits)
    from True show ?thesis
      by (auto simp: increasing_set_ok_def Let_def increasing_set_ok_loop_iff t y[symmetric])
  qed
next
  assume "nat k \<le> length ds \<and> DNaN \<notin> set (take (nat k) ds)"
  then have len: "nat k \<le> length ds" and nonan: "DNaN \<notin> set (take (nat k) ds)"
    by simp_all
  show "increasing_set_ok_double D_INF (Some ds) k dlo dhi \<longleftrightarrow>
           0 \<le> k \<and> sorted_wrt dle (take (nat k) ds)
           \<and> (dle dlo dhi \<longrightarrow> (\<forall>e\<in>set (take (nat k) ds). dle dlo e \<and> dle e dhi))
           \<and> (\<not> dle dlo dhi \<and> 0 < k \<longrightarrow> \<not> dlt (ds ! 0) (dneg D_INF))"
  proof (cases "0 < k")
    case False
    then show ?thesis
      by (cases "k < 0") (simp_all add: increasing_set_ok_double_def)
  next
    case True
    with len obtain y ys where t: "take (nat k) ds = y # ys" and y: "y = ds ! 0"
      by (cases ds) (auto simp: take_Cons' split: if_splits)
    from nonan t have yn: "y \<noteq> DNaN" and ysn: "DNaN \<notin> set ys"
      by auto
    have below: "(\<forall>e\<in>set (y # ys). \<not> dlt e p) \<longleftrightarrow> \<not> dlt y p" if "sorted_wrt dle (y # ys)" for p
    proof -
      have "\<not> dlt x p" if "\<not> dlt y p" "x \<in> set ys" for x
      proof -
        from \<open>sorted_wrt dle (y # ys)\<close> that(2) have "dle y x" by auto
        then have "\<not> dlt x y" by (simp add: dle_def)
        moreover from that(2) ysn have "x \<noteq> DNaN" by auto
        ultimately show ?thesis using dlt_trans_prev[OF yn _ that(1)] by blast
      qed
      then show ?thesis by auto
    qed
    have inb: "dle dlo e \<and> dle e dhi \<longleftrightarrow> \<not> dlt e dlo \<and> \<not> dgt e dhi"
      if "dle dlo dhi" "e \<in> set (y # ys)" for e
    proof -
      from that(2) yn ysn have "e \<noteq> DNaN" by auto
      with that(1) show ?thesis by (auto simp: dle_def dgt_def)
    qed
    have L: "increasing_set_ok_double_loop c up (y # ys) p \<longleftrightarrow>
        (\<forall>e\<in>set (y # ys). \<not> dlt e p) \<and> sorted_wrt dle (y # ys)
        \<and> (c \<longrightarrow> (\<forall>e\<in>set (y # ys). \<not> dgt e up))" for c up p
      by (rule increasing_set_ok_double_loop_iff) (use yn ysn in auto)
    show ?thesis
    proof (cases "dle dlo dhi")
      case cb: True
      have "increasing_set_ok_double D_INF (Some ds) k dlo dhi \<longleftrightarrow>
          (\<forall>e\<in>set (y # ys). \<not> dlt e dlo) \<and> sorted_wrt dle (y # ys) \<and> (\<forall>e\<in>set (y # ys). \<not> dgt e dhi)"
        using True cb
        by (simp add: increasing_set_ok_double_def Let_def t L del: sorted_wrt.simps increasing_set_ok_double_loop.simps)
      also have "\<dots> \<longleftrightarrow> sorted_wrt dle (y # ys) \<and> (\<forall>e\<in>set (y # ys). dle dlo e \<and> dle e dhi)"
        using inb[OF cb] by blast
      finally show ?thesis using True cb by (simp add: t)
    next
      case cb: False
      have "increasing_set_ok_double D_INF (Some ds) k dlo dhi \<longleftrightarrow>
          (\<forall>e\<in>set (y # ys). \<not> dlt e (dneg D_INF)) \<and> sorted_wrt dle (y # ys)"
        using True cb
        by (simp add: increasing_set_ok_double_def Let_def t L del: sorted_wrt.simps increasing_set_ok_double_loop.simps)
      also have "\<dots> \<longleftrightarrow> sorted_wrt dle (y # ys) \<and> \<not> dlt y (dneg D_INF)"
        using below by blast
      finally show ?thesis using True cb by (simp add: t y)
    qed
  qed
qed

text \<open>
  The theorem at \<open>{3, 5, 5}\<close> within \<open>[0, 9]\<close>, at the same array with \<open>lo > hi\<close>, and
  at the doubles \<open>{-\<infinity>, 2.5}\<close> with \<open>lo > hi\<close>.
\<close>

theorem increasing_set_ok_iff_witness:
  "increasing_set_ok 2147483647 (Some [3, 5, 5]) 3 0 9
   \<and> increasing_set_ok 2147483647 (Some [3, 5, 5]) 3 1 0
   \<and> increasing_set_ok_double DPosInf (Some [DNegInf, DFin (5 / 2)]) 2 (DFin 1) (DFin 0)"
proof -
  have a: "nat 3 \<le> length [3, 5, 5 :: int]"
    by simp
  have b: "nat 2 \<le> length [DNegInf, DFin (5 / 2)] \<and> DNaN \<notin> set (take (nat 2) [DNegInf, DFin (5 / 2)])"
    by simp
  have 1: "increasing_set_ok 2147483647 (Some [3, 5, 5]) 3 0 9"
    using increasing_set_ok_iff[of 2147483647 3 0 9 "[3, 5, 5]" DPosInf DNaN DNaN "[]"] a
    by simp
  have 2: "increasing_set_ok 2147483647 (Some [3, 5, 5]) 3 1 0"
    using increasing_set_ok_iff[of 2147483647 3 1 0 "[3, 5, 5]" DPosInf DNaN DNaN "[]"] a
    by simp
  have 3: "increasing_set_ok_double DPosInf (Some [DNegInf, DFin (5 / 2)]) 2 (DFin 1) (DFin 0)"
    using increasing_set_ok_iff[of 0 2 0 0 "[]" DPosInf "DFin 1" "DFin 0" "[DNegInf, DFin (5 / 2)]"] b
    by (simp add: dle_def)
  from 1 2 3 show ?thesis by simp
qed

text \<open>
  The claim as it is written fails in both overloads. With \<open>lo = 1 > hi = 0\<close> only the
  ordering should be checked, and the one-entry array \<open>{-2147483648}\<close> is ordered, yet the
  \<^verbatim>\<open>int\<close> overload returns false, the entry being below \<open>-HIGHS_CONST_I_INF\<close> (here with
  \<open>HIGHS_CONST_I_INF = 2147483647\<close>, the largest \<^verbatim>\<open>int\<close>; the lemma after it covers every
  other value). With \<open>lo = 0 \<le> hi = 1\<close> the \<^verbatim>\<open>double\<close> overload returns true on the array
  \<open>{NaN}\<close>, whose entry does not lie in \<open>[0, 1]\<close>.
\<close>

theorem increasing_set_ok_fails:
  "\<not> increasing_set_ok 2147483647 (Some [- 2147483648]) 1 1 0
   \<and> sorted (take (nat 1) [- 2147483648 :: int]) \<and> \<not> (1 :: int) \<le> 0
   \<and> increasing_set_ok_double DPosInf (Some [DNaN]) 1 (DFin 0) (DFin 1)
   \<and> dle (DFin 0) (DFin 1) \<and> \<not> dle (DFin 0) DNaN \<and> \<not> dle DNaN (DFin 1)"
  by (simp add: increasing_set_ok_def increasing_set_ok_double_def Let_def dle_def dgt_def)

lemma increasing_set_ok_int_min:
  "- 2147483647 \<le> - I_INF \<Longrightarrow> \<not> increasing_set_ok I_INF (Some [- 2147483648]) 1 1 0"
  by (simp add: increasing_set_ok_def Let_def)

end
